theory Spec2Isabelle
  imports Complex_Main "HOL-Library.Product_Lexorder"
begin

section \<open>Incremental decoding of XLM/src/model/transformer.py\<close>

text \<open>
  The development embeds the masking utility, the attention cache protocol, the
  incremental decoder pass, the two decoders and the hypothesis pool of
  \<^verbatim>\<open>XLM/src/model/transformer.py\<close>.

  Conventions of the embedding:
  \<^item> a Python exception is a value \<open>Inl e\<close> of the sum type \<open>error + 'a\<close>;
  \<^item> Python floats (scores, log-probabilities, the length penalty) are idealised as
    \<open>real\<close>: rounding, infinities and NaN are outside the model;
  \<^item> a tensor is a nested list, outermost axis first; the numeric kernels (embeddings,
    linear maps, soft-max, layer norms) are parameters of the model.
\<close>

subsection \<open>Errors and Python arithmetic\<close>

datatype error = AssertionError | ZeroDivisionError | IndexError | TypeError
  | ValueError | RuntimeError | AttributeError

text \<open>
  \<^verbatim>\<open>b ** e\<close> for an integer base and a float exponent. A zero base with a negative
  exponent raises; a negative base with a fractional exponent yields a complex number,
  which the comparisons and tensor fills that consume the result reject with a
  \<^verbatim>\<open>TypeError\<close>.
\<close>

definition py_pow :: "int \<Rightarrow> real \<Rightarrow> error + real" where
  "py_pow b e =
     (if 0 < b then Inr (real_of_int b powr e)
      else if b = 0 then
        (if e = 0 then Inr 1 else if 0 < e then Inr 0 else Inl ZeroDivisionError)
      else if e \<in> \<int> then Inr (real_of_int b powi \<lfloor>e\<rfloor>)
      else Inl TypeError)"

text \<open>\<^verbatim>\<open>a / b\<close> on Python floats.\<close>

definition py_div :: "real \<Rightarrow> real \<Rightarrow> error + real" where
  "py_div a b = (if b = 0 then Inl ZeroDivisionError else Inr (a / b))"

text \<open>\<^verbatim>\<open>del xs[i]\<close> for an index in range.\<close>

definition delete_at :: "nat \<Rightarrow> 'a list \<Rightarrow> 'a list" where
  "delete_at i xs = take i xs @ drop (Suc i) xs"

subsection \<open>Hypothesis pool: class BeamHypotheses\<close>

record 'w BeamHypotheses =
  max_len :: int
  length_penalty :: real
  early_stopping :: bool
  n_hyp :: nat
  hyp :: "(real \<times> 'w list) list"
  worst_score :: real

text \<open>\<^verbatim>\<open>BeamHypotheses.__init__\<close>: the stored maximum length ignores the start marker.\<close>

definition BeamHypotheses_init :: "nat \<Rightarrow> int \<Rightarrow> real \<Rightarrow> bool \<Rightarrow> 'w BeamHypotheses" where
  "BeamHypotheses_init n m lp es =
     \<lparr>max_len = m - 1, length_penalty = lp, early_stopping = es, n_hyp = n,
      hyp = [], worst_score = 1000000000\<rparr>"

text \<open>
  \<^verbatim>\<open>sorted([(s, idx) for idx, (s, _) in enumerate(self.hyp)])\<close>: pairs are compared
  lexicographically, score first.
\<close>

definition sorted_scores :: "(real \<times> 'w list) list \<Rightarrow> (real \<times> nat) list" where
  "sorted_scores h = sort (map (\<lambda>(idx, (s, _)). (s, idx)) (enumerate 0 h))"

text \<open>\<^verbatim>\<open>BeamHypotheses.add\<close>.\<close>

definition add :: "'w BeamHypotheses \<Rightarrow> 'w list \<Rightarrow> real \<Rightarrow> error + 'w BeamHypotheses" where
  "add p h sum_logprobs =
     (case py_pow (int (length h)) (length_penalty p) of
        Inl e \<Rightarrow> Inl e
      | Inr d \<Rightarrow>
          (case py_div sum_logprobs d of
             Inl e \<Rightarrow> Inl e
           | Inr score \<Rightarrow>
               if length (hyp p) < n_hyp p \<or> score > worst_score p then
                 (let hs = hyp p @ [(score, h)] in
                  if length hs > n_hyp p then
                    (let ss = sorted_scores hs in
                     if length ss < 2 then Inl IndexError
                     else Inr (p\<lparr>hyp := delete_at (snd (ss ! 0)) hs,
                                 worst_score := fst (ss ! 1)\<rparr>))
                  else Inr (p\<lparr>hyp := hs, worst_score := min score (worst_score p)\<rparr>))
               else Inr p))"

text \<open>A sequence of \<^verbatim>\<open>add\<close> calls; the first exception ends it.\<close>

fun adds :: "'w BeamHypotheses \<Rightarrow> ('w list \<times> real) list \<Rightarrow> error + 'w BeamHypotheses" where
  "adds p [] = Inr p"
| "adds p ((h, s) # xs) = (case add p h s of Inl e \<Rightarrow> Inl e | Inr p' \<Rightarrow> adds p' xs)"

text \<open>\<^verbatim>\<open>BeamHypotheses.is_done\<close>.\<close>

definition is_done :: "'w BeamHypotheses \<Rightarrow> real \<Rightarrow> error + bool" where
  "is_done p best_sum_logprobs =
     (if length (hyp p) < n_hyp p then Inr False
      else if early_stopping p then Inr True
      else (case py_pow (max_len p) (length_penalty p) of
              Inl e \<Rightarrow> Inl e
            | Inr d \<Rightarrow>
                (case py_div best_sum_logprobs d of
                   Inl e \<Rightarrow> Inl e
                 | Inr q \<Rightarrow> Inr (worst_score p \<ge> q))))"

text \<open>
  The pool invariant: at most \<open>n_hyp\<close> entries, and the tracked worst score is the
  initial sentinel while the pool is empty and the least retained score afterwards.
\<close>

definition pool_ok :: "'w BeamHypotheses \<Rightarrow> bool" where
  "pool_ok p \<longleftrightarrow>
     length (hyp p) \<le> n_hyp p \<and>
     (if hyp p = [] then worst_score p = 1000000000
      else worst_score p = Min (fst ` set (hyp p)))"

text \<open>
  What one \<^verbatim>\<open>add\<close> call does to a pool \<open>p\<close>, giving \<open>p'\<close>: the new entry is appended iff the pool
  is not full or the normalised score beats the worst retained one; an append onto a full
  pool evicts one old entry of least score; the tracker is the least retained score.
\<close>

definition add_post :: "'w BeamHypotheses \<Rightarrow> 'w list \<Rightarrow> real \<Rightarrow> 'w BeamHypotheses \<Rightarrow> bool" where
  "add_post p h s p' \<longleftrightarrow>
     (let n = n_hyp p; sc = s / real (length h) powr length_penalty p;
          hs = hyp p @ [(sc, h)]
      in (if length (hyp p) < n \<or> sc > worst_score p
          then (length (hyp p) < n \<and> hyp p' = hs) \<or>
               (length (hyp p) = n \<and>
                (\<exists>i<length (hyp p). hyp p' = delete_at i hs \<and>
                   fst (hyp p ! i) = Min (fst ` set hs)))
          else p' = p) \<and>
         length (hyp p') \<le> n \<and> hyp p' \<noteq> [] \<and>
         worst_score p' = Min (fst ` set (hyp p')))"

subsection \<open>Masking utility: get_masks\<close>

text \<open>
  The attention mask is the validity mask itself (two axes) or a causal mask (three
  axes).
\<close>

datatype attn_mask = Mask2 "bool list list" | Mask3 "bool list list list"

text \<open>
  \<^verbatim>\<open>get_masks(slen, lengths, causal)\<close>. Lengths are counts, hence natural numbers;
  \<^verbatim>\<open>lengths.max()\<close> of an empty tensor raises a \<^verbatim>\<open>RuntimeError\<close>.
\<close>

definition get_masks :: "nat \<Rightarrow> nat list \<Rightarrow> bool \<Rightarrow> error + (bool list list \<times> attn_mask)" where
  "get_masks slen lengths causal =
     (if lengths = [] then Inl RuntimeError
      else if \<not> Max (set lengths) \<le> slen then Inl AssertionError
      else
        (let bs = length lengths;
             alen = [0..<slen];
             mask = map (\<lambda>l. map (\<lambda>t. t < l) alen) lengths;
             attn = (if causal
                     then Mask3 (replicate bs (map (\<lambda>q. map (\<lambda>k. k \<le> q) alen) alen))
                     else Mask2 mask)
         in Inr (mask, attn)))"

text \<open>Entry \<open>(b, q, k)\<close> of an attention mask; a two-axis mask is broadcast over \<open>q\<close>.\<close>

fun attn_at :: "attn_mask \<Rightarrow> nat \<Rightarrow> nat \<Rightarrow> nat \<Rightarrow> bool" where
  "attn_at (Mask2 m) b q k = m ! b ! k"
| "attn_at (Mask3 m) b q k = m ! b ! q ! k"

subsection \<open>Tensors as nested lists\<close>

text \<open>Sequencing of computations that may raise.\<close>

definition ebind :: "error + 'a \<Rightarrow> ('a \<Rightarrow> error + 'b) \<Rightarrow> error + 'b" where
  "ebind m f = (case m of Inl e \<Rightarrow> Inl e | Inr a \<Rightarrow> f a)"

fun foldM :: "('a \<Rightarrow> 'b \<Rightarrow> error + 'b) \<Rightarrow> 'a list \<Rightarrow> 'b \<Rightarrow> error + 'b" where
  "foldM f [] s = Inr s"
| "foldM f (x # xs) s = (case f x s of Inl e \<Rightarrow> Inl e | Inr s' \<Rightarrow> foldM f xs s')"

fun mapM :: "('a \<Rightarrow> error + 'b) \<Rightarrow> 'a list \<Rightarrow> error + 'b list" where
  "mapM f [] = Inr []"
| "mapM f (x # xs) =
     (case f x of Inl e \<Rightarrow> Inl e
      | Inr y \<Rightarrow> (case mapM f xs of Inl e \<Rightarrow> Inl e | Inr ys \<Rightarrow> Inr (y # ys)))"

text \<open>\<^verbatim>\<open>t.size(1)\<close> of a tensor with a non-empty first axis.\<close>

definition tdim :: "'a list list \<Rightarrow> nat" where
  "tdim xs = (case xs of [] \<Rightarrow> 0 | r # _ \<Rightarrow> length r)"

text \<open>\<^verbatim>\<open>t.transpose(0, 1)\<close> of a tensor whose second axis has size \<open>n\<close>.\<close>

definition swap_axes :: "nat \<Rightarrow> 'a list list \<Rightarrow> 'a list list" where
  "swap_axes n xs = map (\<lambda>j. map (\<lambda>r. r ! j) xs) [0..<n]"

text \<open>A tensor of shape \<open>(n, m)\<close>.\<close>

definition rect :: "nat \<Rightarrow> nat \<Rightarrow> 'a list list \<Rightarrow> bool" where
  "rect n m xs \<longleftrightarrow> length xs = n \<and> (\<forall>r\<in>set xs. length r = m)"

text \<open>
  The slice \<^verbatim>\<open>xs[-k:]\<close>. For \<open>k = 0\<close> the start index is \<open>-0 = 0\<close> and the slice is the whole
  list; for a negative \<open>k\<close> the start index \<open>-k\<close> is positive.
\<close>

definition slice_tail :: "int \<Rightarrow> 'a list \<Rightarrow> 'a list" where
  "slice_tail k xs = (if 0 < k then drop (length xs - nat k) xs else drop (nat (- k)) xs)"

text \<open>
  \<^verbatim>\<open>fwd\<close> keeps, with the cache in use, the slice \<^verbatim>\<open>[:, -_slen:]\<close> of its inputs.
\<close>

definition new_steps :: "bool \<Rightarrow> int \<Rightarrow> 'a list \<Rightarrow> 'a list" where
  "new_steps use_cache k xs = (if use_cache then slice_tail k xs else xs)"

text \<open>Boolean-mask indexing \<^verbatim>\<open>xs[mask]\<close> along the first axis.\<close>

definition select :: "bool list \<Rightarrow> 'a list \<Rightarrow> 'a list" where
  "select m xs = map snd (filter fst (zip m xs))"

text \<open>Masked assignment \<^verbatim>\<open>xs[mask] = vs\<close>.\<close>

fun scatter :: "bool list \<Rightarrow> 'a list \<Rightarrow> 'a list \<Rightarrow> 'a list" where
  "scatter (True # m) (v # vs) (x # xs) = v # scatter m vs xs"
| "scatter (False # m) vs (x # xs) = x # scatter m vs xs"
| "scatter m vs xs = xs"

subsection \<open>The network and its attention cache\<close>

text \<open>
  The model's configuration and its numeric kernels. A hidden state of one position is a
  value of type \<open>'h\<close>, a source encoding of one position a value of type \<open>'s\<close>, a projected
  key or value of one position (all heads) a value of type \<open>'kv\<close>. Drop-out is part of the
  kernels (generation runs them deterministically).
  \<^item> \<open>embed\<close>: token, position and language embeddings, summed and normalised;
  \<^item> \<open>mask_mul\<close>: multiplication by one validity-mask entry;
  \<^item> \<open>self_kv\<close>, \<open>enc_kv\<close>: the key and value projections of a layer's self-attention
    and encoder-attention modules;
  \<^item> \<open>attend\<close>: query projection, scaled scores, masked fill, soft-max, context and output
    projection of the module with the given identifier, for one query position, given
    the mask bit, key and value of every key position;
  \<^item> \<open>norm1\<close>, \<open>norm15\<close>, \<open>ffn\<close>: residual sums with layer normalisation and the
    feed-forward sublayer;
  \<^item> \<open>pred_scores\<close>: the prediction layer's projection.
\<close>

record ('h, 's, 'kv) transformer =
  n_layers :: nat
  is_decoder :: bool
  n_words :: nat
  n_langs :: nat
  use_lang_emb :: bool
  eos_index :: nat
  pad_index :: nat
  first_layer_id :: nat
  embed :: "nat \<Rightarrow> nat \<Rightarrow> nat option \<Rightarrow> 'h"
  mask_mul :: "bool \<Rightarrow> 'h \<Rightarrow> 'h"
  self_kv :: "nat \<Rightarrow> 'h \<Rightarrow> 'kv \<times> 'kv"
  enc_kv :: "nat \<Rightarrow> 's \<Rightarrow> 'kv \<times> 'kv"
  attend :: "nat \<Rightarrow> 'h \<Rightarrow> (bool \<times> 'kv \<times> 'kv) list \<Rightarrow> 'h"
  norm1 :: "nat \<Rightarrow> 'h \<Rightarrow> 'h \<Rightarrow> 'h"
  norm15 :: "nat \<Rightarrow> 'h \<Rightarrow> 'h \<Rightarrow> 'h"
  ffn :: "nat \<Rightarrow> 'h \<Rightarrow> 'h"
  pred_scores :: "'h \<Rightarrow> real list"

definition N_MAX_POSITIONS :: nat where
  "N_MAX_POSITIONS = 1024"

text \<open>
  \<^verbatim>\<open>MultiHeadAttention.NEW_ID\<close> numbers the attention modules in the order of their
  construction: in a decoder, layer \<open>i\<close> builds its self-attention and then its
  encoder-attention module; an encoder builds self-attention modules only.
\<close>

definition self_id :: "('h, 's, 'kv) transformer \<Rightarrow> nat \<Rightarrow> nat" where
  "self_id M i = (if is_decoder M then first_layer_id M + 2 * i else first_layer_id M + i)"

definition enc_id :: "('h, 's, 'kv) transformer \<Rightarrow> nat \<Rightarrow> nat" where
  "enc_id M i = first_layer_id M + 2 * i + 1"

text \<open>
  The cache dictionary: the entry \<^verbatim>\<open>'slen'\<close> and, per module identifier, a pair of key and
  value tensors, indexed by batch row and then by time step. The entries are kept in
  insertion order, as a Python dictionary keeps them.
\<close>

record 'kv cache =
  c_slen :: nat
  c_layers :: "(nat \<times> ('kv list list \<times> 'kv list list)) list"

text \<open>The cache \<^verbatim>\<open>{'slen': 0}\<close>.\<close>

definition empty_cache :: "'kv cache" where
  "empty_cache = \<lparr>c_slen = 0, c_layers = []\<rparr>"

text \<open>\<^verbatim>\<open>cache[lid] = kv\<close>: an existing key keeps its place, a new key is appended.\<close>

fun store :: "nat \<Rightarrow> 'v \<Rightarrow> (nat \<times> 'v) list \<Rightarrow> (nat \<times> 'v) list" where
  "store lid kv [] = [(lid, kv)]"
| "store lid kv ((l, e) # es) = (if l = lid then (lid, kv) # es else (l, e) # store lid kv es)"

text \<open>\<^verbatim>\<open>torch.cat([a, b], dim=2)\<close> on tensors indexed by batch row and time step.\<close>

definition cat_time :: "'a list list \<Rightarrow> 'a list list \<Rightarrow> error + 'a list list" where
  "cat_time a b = (if length a \<noteq> length b then Inl RuntimeError else Inr (map2 (@) a b))"

text \<open>The mask bits of batch row \<open>b\<close> and query position \<open>q\<close>, over the key positions.\<close>

fun mask_row :: "attn_mask \<Rightarrow> nat \<Rightarrow> nat \<Rightarrow> bool list" where
  "mask_row (Mask2 m) b q = m ! b"
| "mask_row (Mask3 m) b q = m ! b ! q"

text \<open>
  \<^verbatim>\<open>mask.view(mask_reshape).expand_as(scores)\<close> succeeds: the mask has \<open>bs\<close> rows of
  \<open>klen\<close> bits (for each of \<open>qlen\<close> queries, if it has three axes), and the keys have
  \<open>klen\<close> time steps.
\<close>

fun mask_fits :: "attn_mask \<Rightarrow> nat \<Rightarrow> nat \<Rightarrow> nat \<Rightarrow> bool" where
  "mask_fits (Mask2 m) bs qlen klen = (length m = bs \<and> (\<forall>r\<in>set m. length r = klen))"
| "mask_fits (Mask3 m) bs qlen klen =
     (length m = bs \<and> (\<forall>r\<in>set m. length r = qlen \<and> (\<forall>c\<in>set r. length c = klen)))"

text \<open>
  The scores, soft-max and context of \<^verbatim>\<open>MultiHeadAttention.forward\<close>, after keys and
  values are settled. The model is strict about shapes: keys and values must have the
  batch size of the input and \<open>klen\<close> time steps. (Where torch would broadcast an axis of
  size one against another size, the model raises the shape error; the decoders never
  build such tensors.)
\<close>

definition attention_output ::
  "('h, 's, 'kv) transformer \<Rightarrow> nat \<Rightarrow> 'h list list \<Rightarrow> attn_mask \<Rightarrow> nat \<Rightarrow>
   'kv list list \<Rightarrow> 'kv list list \<Rightarrow> error + 'h list list" where
  "attention_output M lid input amask klen k v =
     (let bs = length input; qlen = tdim input in
      if length k \<noteq> bs \<or> length v \<noteq> bs \<or> (\<exists>r\<in>set k. length r \<noteq> klen)
         \<or> (\<exists>r\<in>set v. length r \<noteq> klen) \<or> \<not> mask_fits amask bs qlen klen
      then Inl RuntimeError
      else Inr (map (\<lambda>b. map (\<lambda>q. attend M lid (input ! b ! q)
                                     (zip (mask_row amask b q) (zip (k ! b) (v ! b))))
                            [0..<qlen])
                    [0..<bs]))"

text \<open>
  \<^verbatim>\<open>MultiHeadAttention.forward\<close> with \<^verbatim>\<open>kv=None\<close> (self-attention), for the module of
  layer \<open>i\<close>. With the cache in use, the new keys and values are appended along the time
  axis to the cached ones, and the result is stored under the module's identifier.
\<close>

definition self_attention ::
  "('h, 's, 'kv) transformer \<Rightarrow> nat \<Rightarrow> 'h list list \<Rightarrow> attn_mask \<Rightarrow> bool \<Rightarrow>
   'kv cache option \<Rightarrow> error + ('h list list \<times> 'kv cache option)" where
  "self_attention M i input amask use_cache cache =
     (if use_cache \<and> cache = None then Inl AssertionError
      else
        (let lid = self_id M i;
             qlen = tdim input;
             klen = (if \<not> use_cache then qlen else c_slen (the cache) + qlen);
             k = map (map (\<lambda>h. fst (self_kv M i h))) input;
             v = map (map (\<lambda>h. snd (self_kv M i h))) input
         in ebind
              (if use_cache then
                 (case map_of (c_layers (the cache)) lid of
                    Some (k_, v_) \<Rightarrow>
                      ebind (cat_time k_ k) (\<lambda>k'. ebind (cat_time v_ v) (\<lambda>v'. Inr (k', v')))
                  | None \<Rightarrow> Inr (k, v))
               else Inr (k, v))
              (\<lambda>(k', v').
                 let cache' = (if use_cache
                               then Some ((the cache)\<lparr>c_layers := store lid (k', v') (c_layers (the cache))\<rparr>)
                               else cache)
                 in ebind (attention_output M lid input amask klen k' v')
                      (\<lambda>out. Inr (out, cache')))))"

text \<open>
  \<^verbatim>\<open>MultiHeadAttention.forward\<close> with a source \<^verbatim>\<open>kv\<close> (encoder attention), for the module
  of layer \<open>i\<close>. With the cache in use and an entry present, the cached keys and values are
  taken as they are; otherwise they are projected from the source.
\<close>

definition encoder_attention ::
  "('h, 's, 'kv) transformer \<Rightarrow> nat \<Rightarrow> 'h list list \<Rightarrow> attn_mask \<Rightarrow> 's list list \<Rightarrow> bool \<Rightarrow>
   'kv cache option \<Rightarrow> error + ('h list list \<times> 'kv cache option)" where
  "encoder_attention M i input amask kv use_cache cache =
     (if use_cache \<and> cache = None then Inl AssertionError
      else
        (let lid = enc_id M i;
             klen = tdim kv;
             (k', v') =
               (if use_cache then
                  (case map_of (c_layers (the cache)) lid of
                     Some (k_, v_) \<Rightarrow> (k_, v_)
                   | None \<Rightarrow> (map (map (\<lambda>s. fst (enc_kv M i s))) kv,
                              map (map (\<lambda>s. snd (enc_kv M i s))) kv))
                else (map (map (\<lambda>s. fst (enc_kv M i s))) kv,
                      map (map (\<lambda>s. snd (enc_kv M i s))) kv));
             cache' = (if use_cache
                       then Some ((the cache)\<lparr>c_layers := store lid (k', v') (c_layers (the cache))\<rparr>)
                       else cache)
         in ebind (attention_output M lid input amask klen k' v')
              (\<lambda>out. Inr (out, cache'))))"

subsection \<open>Incremental decoder pass: TransformerModel.fwd\<close>

text \<open>One transformer layer of the loop in \<^verbatim>\<open>fwd\<close>.\<close>

definition layer ::
  "('h, 's, 'kv) transformer \<Rightarrow> bool list list \<Rightarrow> attn_mask \<Rightarrow>
   ('s list list \<times> bool list list) option \<Rightarrow> bool \<Rightarrow> nat \<Rightarrow>
   'h list list \<times> 'kv cache option \<Rightarrow> error + ('h list list \<times> 'kv cache option)" where
  "layer M vmask attn_mask src use_cache i st =
     (case st of (tensor, cache) \<Rightarrow>
      ebind (self_attention M i tensor attn_mask use_cache cache)
        (\<lambda>(attn, cache1).
           let tensor1 = map2 (map2 (norm1 M i)) tensor attn in
           ebind
             (case src of
                None \<Rightarrow> Inr (tensor1, cache1)
              | Some (src_enc, src_mask) \<Rightarrow>
                  ebind (encoder_attention M i tensor1 (Mask2 src_mask) src_enc use_cache cache1)
                    (\<lambda>(attn2, cache2). Inr (map2 (map2 (norm15 M i)) tensor1 attn2, cache2)))
             (\<lambda>(tensor2, cache2).
                Inr (map2 (map2 (mask_mul M)) vmask (map (map (ffn M i)) tensor2), cache2))))"

text \<open>
  The embedding look-ups of one position: an index outside a table raises
  \<^verbatim>\<open>IndexError\<close>, and the language table exists only for more than one language.
\<close>

definition embed_at ::
  "('h, 's, 'kv) transformer \<Rightarrow> nat \<Rightarrow> nat \<Rightarrow> nat option \<Rightarrow> error + 'h" where
  "embed_at M w pos lang =
     (if \<not> w < n_words M then Inl IndexError
      else if \<not> pos < N_MAX_POSITIONS then Inl IndexError
      else (case lang of
              None \<Rightarrow> Inr (embed M w pos None)
            | Some l \<Rightarrow>
                if \<not> use_lang_emb M then Inr (embed M w pos None)
                else if \<not> 1 < n_langs M then Inl AttributeError
                else if \<not> l < n_langs M then Inl IndexError
                else Inr (embed M w pos (Some l))))"

text \<open>
  The embedding stage of \<^verbatim>\<open>fwd\<close>: look-ups for every batch row and time step, then the
  multiplication by the validity mask.
\<close>

definition embed_tokens ::
  "('h, 's, 'kv) transformer \<Rightarrow> nat list list \<Rightarrow> nat list list \<Rightarrow> nat list list option \<Rightarrow>
   bool list list \<Rightarrow> error + 'h list list" where
  "embed_tokens M x1 pos1 lang1 mask1 =
     mapM (\<lambda>b.
         mapM (\<lambda>t.
             ebind (embed_at M (x1 ! b ! t) (pos1 ! b ! t) (map_option (\<lambda>l. l ! b ! t) lang1))
               (\<lambda>h. Inr (mask_mul M (mask1 ! b ! t) h)))
           [0..<length (x1 ! b)])
       [0..<length x1]"

text \<open>\<^verbatim>\<open>attn_mask[:, -_slen:]\<close>.\<close>

definition slice_mask :: "bool \<Rightarrow> int \<Rightarrow> attn_mask \<Rightarrow> attn_mask" where
  "slice_mask use_cache k am =
     (case am of
        Mask2 m \<Rightarrow> Mask2 (map (new_steps use_cache k) m)
      | Mask3 m \<Rightarrow> Mask3 (map (new_steps use_cache k) m))"

text \<open>The source with its validity mask \<^verbatim>\<open>src_mask\<close>.\<close>

definition with_src_mask ::
  "('s list list \<times> nat list) option \<Rightarrow> ('s list list \<times> bool list list) option" where
  "with_src_mask src =
     map_option (\<lambda>(src_enc, src_len).
        (src_enc, map (\<lambda>l. map (\<lambda>t. t < l) [0..<tdim src_enc]) src_len)) src"

text \<open>
  \<^verbatim>\<open>TransformerModel.fwd\<close>. The token batch \<open>x\<close> is indexed by time step and then by batch
  row, as are \<open>positions\<close>, \<open>langs\<close> and the returned tensor. The source, when given, is
  the pair of \<open>src_enc\<close> and \<open>src_len\<close>.
\<close>

definition fwd ::
  "('h, 's, 'kv) transformer \<Rightarrow> nat list list \<Rightarrow> nat list \<Rightarrow> bool \<Rightarrow>
   ('s list list \<times> nat list) option \<Rightarrow> nat list list option \<Rightarrow> nat list list option \<Rightarrow>
   bool \<Rightarrow> 'kv cache option \<Rightarrow> error + ('h list list \<times> 'kv cache option)" where
  "fwd M x lengths causal src positions langs use_cache cache =
     (let slen = length x; bs = length lengths in
      if use_cache \<and> cache = None then Inl AssertionError
      else if \<exists>r\<in>set x. length r \<noteq> bs then Inl AssertionError
      else if lengths = [] then Inl RuntimeError
      else if \<not> Max (set lengths) \<le> slen then Inl AssertionError
      else if src \<noteq> None \<and> \<not> is_decoder M then Inl AssertionError
      else if (case src of None \<Rightarrow> False | Some (src_enc, src_len) \<Rightarrow> length src_enc \<noteq> bs)
        then Inl AssertionError
      else ebind (get_masks slen lengths causal) (\<lambda>(vmask, attn_mask).
        if (case positions of None \<Rightarrow> False
            | Some p \<Rightarrow> length p \<noteq> slen \<or> (\<exists>r\<in>set p. length r \<noteq> bs)) then Inl AssertionError
        else if (case langs of None \<Rightarrow> False
            | Some l \<Rightarrow> length l \<noteq> slen \<or> (\<exists>r\<in>set l. length r \<noteq> bs)) then Inl AssertionError
        else
          (let posT = (case positions of None \<Rightarrow> replicate bs [0..<slen]
                       | Some p \<Rightarrow> swap_axes bs p);
               new_slen = (if use_cache then int slen - int (c_slen (the cache)) else int slen);
               mask1 = map (new_steps use_cache new_slen) vmask
           in ebind
                (embed_tokens M (map (new_steps use_cache new_slen) (swap_axes bs x))
                   (map (new_steps use_cache new_slen) posT)
                   (map_option (\<lambda>l. map (new_steps use_cache new_slen) (swap_axes bs l)) langs)
                   mask1)
                (\<lambda>tensor0.
                   ebind (foldM (layer M mask1 (slice_mask use_cache new_slen attn_mask)
                                   (with_src_mask src) use_cache)
                            [0..<n_layers M] (tensor0, cache))
                     (\<lambda>(tensor, cache1).
                        Inr (swap_axes (tdim tensor) tensor,
                             if use_cache
                             then map_option (\<lambda>c. c\<lparr>c_slen := c_slen c + tdim tensor\<rparr>) cache1
                             else cache1))))))"

text \<open>
  The cache holds, under the identifier \<open>lid\<close>, key and value tensors with \<open>bs\<close> batch
  rows of \<open>t\<close> time steps each.
\<close>

definition cached :: "'kv cache \<Rightarrow> nat \<Rightarrow> nat \<Rightarrow> nat \<Rightarrow> bool" where
  "cached c lid bs t \<longleftrightarrow>
     (\<exists>k v. map_of (c_layers c) lid = Some (k, v) \<and> rect bs t k \<and> rect bs t v)"

text \<open>
  The number of time steps that \<^verbatim>\<open>fwd\<close> keeps of an input of \<open>slen\<close> steps when the cache
  has accumulated \<open>cslen\<close> steps: the length of the slice \<^verbatim>\<open>[-(slen - cslen):]\<close>.
\<close>

definition new_len :: "nat \<Rightarrow> nat \<Rightarrow> nat" where
  "new_len slen cslen = (if cslen < slen then slen - cslen else slen - (cslen - slen))"

subsection \<open>Greedy and sampling decoder: TransformerModel.generate\<close>

text \<open>
  \<^verbatim>\<open>torch.topk(xs, k, largest=True, sorted=True)\<close> on one row: the \<open>k\<close> largest values with
  their indices, largest first. Among equal values the model takes the lower index first.
\<close>

definition topk :: "nat \<Rightarrow> real list \<Rightarrow> error + (real \<times> nat) list" where
  "topk k xs =
     (if length xs < k then Inl RuntimeError
      else Inr (take k (sort_key (\<lambda>(v, i). (- v, i)) (zip xs [0..<length xs]))))"

definition softmax :: "real list \<Rightarrow> real list" where
  "softmax xs = map (\<lambda>x. exp x / sum_list (map exp xs)) xs"

definition log_softmax :: "real list \<Rightarrow> real list" where
  "log_softmax xs = map (\<lambda>x. x - ln (sum_list (map exp xs))) xs"

text \<open>The argument \<^verbatim>\<open>max_len\<close>: an integer, or a tensor of per-sentence maxima.\<close>

datatype max_len_arg = MaxInt int | MaxTensor "nat list"

text \<open>
  \<^verbatim>\<open>max_lengths\<close> and \<^verbatim>\<open>global_max_len\<close>, the first lines of both decoders. Allocating
  \<^verbatim>\<open>generated\<close> with a negative size raises, and so does writing its row 0 when it has no
  rows.
\<close>

definition max_lengths_of :: "max_len_arg \<Rightarrow> nat \<Rightarrow> error + (nat list \<times> nat)" where
  "max_lengths_of mlen bs =
     (case mlen of
        MaxInt n \<Rightarrow> if n < 0 then Inl RuntimeError else Inr (replicate bs (nat n), nat n)
      | MaxTensor v \<Rightarrow> if v = [] then Inl RuntimeError else Inr (v, Max (set v)))"

text \<open>
  \<^verbatim>\<open>generated\<close> after its initialisation: padding everywhere, the end marker in row 0.
\<close>

definition initial_generated ::
  "('h, 's, 'kv) transformer \<Rightarrow> nat \<Rightarrow> nat \<Rightarrow> error + nat list list" where
  "initial_generated M global_max_len n =
     (if global_max_len = 0 then Inl IndexError
      else Inr (replicate n (eos_index M) # replicate (global_max_len - 1) (replicate n (pad_index M))))"

record 'kv gen_state =
  generated :: "nat list list"
  gen_len :: "nat list"
  unfinished_sents :: "nat list"
  gcache :: "'kv cache"
  previous_unfinished_mask :: "bool list"
  cur_len :: nat

text \<open>
  The re-filtering of the cache in \<^verbatim>\<open>generate\<close>: every entry's key and value tensors are
  indexed by \<^verbatim>\<open>restricted_mask\<close> along the batch axis. (The source stores a generator
  that does the indexing when \<^verbatim>\<open>fwd\<close> next unpacks the entry, which it does for every
  entry.) A mask of another length than the batch axis raises.
\<close>

definition restrict_cache :: "bool list \<Rightarrow> 'kv cache \<Rightarrow> error + 'kv cache" where
  "restrict_cache restricted_mask c =
     ebind (mapM (\<lambda>(lid, (k, v)).
                    if length k \<noteq> length restricted_mask \<or> length v \<noteq> length restricted_mask
                    then Inl IndexError
                    else Inr (lid, (select restricted_mask k, select restricted_mask v)))
              (c_layers c))
       (\<lambda>es. Inr (c\<lparr>c_layers := es\<rparr>))"

text \<open>
  The head of the loop body of \<^verbatim>\<open>generate\<close>: the cache that is handed to \<^verbatim>\<open>fwd\<close>. It is
  re-filtered when the active mask differs from the one of the previous step.
\<close>

definition prepare_cache :: "'kv gen_state \<Rightarrow> error + 'kv cache" where
  "prepare_cache st =
     (let unfinished_mask = map (\<lambda>u. u \<noteq> 0) (unfinished_sents st);
          should_modify = (unfinished_mask \<noteq> previous_unfinished_mask st);
          restricted_mask = select (previous_unfinished_mask st) unfinished_mask
      in if should_modify then restrict_cache restricted_mask (gcache st)
         else Inr (gcache st))"

text \<open>
  The selection of the next words: arg-max, or a draw from the soft-max of the scaled
  scores. The random generator is the parameter \<open>rng\<close>, which gives the drawn index for
  a step, a row and a probability vector. A zero temperature gives scores that
  \<^verbatim>\<open>torch.multinomial\<close> rejects.
\<close>

definition select_next_words ::
  "real option \<Rightarrow> (nat \<Rightarrow> nat \<Rightarrow> real list \<Rightarrow> nat) \<Rightarrow> nat \<Rightarrow> real list list \<Rightarrow> error + nat list" where
  "select_next_words sample_temperature rng step scores =
     (case sample_temperature of
        None \<Rightarrow> mapM (\<lambda>row. ebind (topk 1 row) (\<lambda>r. Inr (snd (hd r)))) scores
      | Some T \<Rightarrow>
          if T = 0 \<or> (\<exists>row\<in>set scores. row = []) then Inl RuntimeError
          else Inr (map (\<lambda>(b, row). rng step b (softmax (map (\<lambda>x. x / T) row)))
                      (enumerate 0 scores)))"

text \<open>One iteration of the \<^verbatim>\<open>while\<close> loop of \<^verbatim>\<open>generate\<close>, up to the update of \<^verbatim>\<open>cur_len\<close>.\<close>

definition generate_step ::
  "('h, 's, 'kv) transformer \<Rightarrow> 's list list \<Rightarrow> nat list \<Rightarrow> nat \<Rightarrow> nat list \<Rightarrow> nat \<Rightarrow>
   real option \<Rightarrow> (nat \<Rightarrow> nat \<Rightarrow> real list \<Rightarrow> nat) \<Rightarrow> 'kv gen_state \<Rightarrow> error + 'kv gen_state" where
  "generate_step M src_enc src_len tgt_lang_id max_lengths global_max_len sample_temperature rng st =
     (let bs = length src_len;
          unfinished_mask = map (\<lambda>u. u \<noteq> 0) (unfinished_sents st);
          n_active = length (filter id unfinished_mask)
      in ebind (prepare_cache st)
        (\<lambda>cache1.
         ebind (fwd M (map (select unfinished_mask) (take (cur_len st) (generated st)))
                  (select unfinished_mask (gen_len st)) True
                  (Some (select unfinished_mask src_enc, select unfinished_mask src_len))
                  (Some (map (\<lambda>t. replicate n_active t) [0..<cur_len st]))
                  (Some (replicate (cur_len st) (replicate n_active tgt_lang_id)))
                  True (Some cache1))
           (\<lambda>(tensor, cache2).
            if length tensor \<noteq> 1 \<or> length (last tensor) \<noteq> n_active then Inl AssertionError
            else ebind (select_next_words sample_temperature rng (cur_len st)
                          (map (pred_scores M) (last tensor)))
              (\<lambda>next_words.
               if length max_lengths \<noteq> bs then Inl RuntimeError
               else
                 (let row1 = scatter unfinished_mask next_words (generated st ! cur_len st);
                      row2 = map (\<lambda>(w, (ml, u)).
                                    if ml = cur_len st + 1 \<and> u = 1 then eos_index M else w)
                               (zip row1 (zip max_lengths (unfinished_sents st)));
                      unfinished' = scatter unfinished_mask
                        (map (\<lambda>(u, (w, ml)).
                                u * (if w \<noteq> eos_index M then 1 else 0)
                                  * (if ml \<noteq> cur_len st + 1 then 1 else 0))
                           (zip (select unfinished_mask (unfinished_sents st))
                              (zip next_words (select unfinished_mask max_lengths))))
                        (unfinished_sents st)
                  in Inr (st\<lparr>generated := (generated st)[cur_len st := row2],
                              gen_len := map2 (+) (gen_len st) (unfinished_sents st),
                              unfinished_sents := unfinished',
                              gcache := the cache2,
                              previous_unfinished_mask := unfinished_mask,
                              cur_len := cur_len st + 1\<rparr>))))))"

text \<open>
  The \<^verbatim>\<open>while\<close> loop of \<^verbatim>\<open>generate\<close>. \<^verbatim>\<open>unfinished_sents.max()\<close> of an empty batch raises.
\<close>

function generate_loop ::
  "('h, 's, 'kv) transformer \<Rightarrow> 's list list \<Rightarrow> nat list \<Rightarrow> nat \<Rightarrow> nat list \<Rightarrow> nat \<Rightarrow>
   real option \<Rightarrow> (nat \<Rightarrow> nat \<Rightarrow> real list \<Rightarrow> nat) \<Rightarrow> 'kv gen_state \<Rightarrow> error + 'kv gen_state" where
  "generate_loop M src_enc src_len tgt_lang_id max_lengths global_max_len sample_temperature rng st =
     (if cur_len st < global_max_len then
        (case generate_step M src_enc src_len tgt_lang_id max_lengths global_max_len
                sample_temperature rng st of
           Inl e \<Rightarrow> Inl e
         | Inr st' \<Rightarrow>
             if unfinished_sents st' = [] then Inl RuntimeError
             else if Max (set (unfinished_sents st')) = 0 then Inr st'
             else generate_loop M src_enc src_len tgt_lang_id max_lengths global_max_len
                    sample_temperature rng (st'\<lparr>cur_len := cur_len st + 1\<rparr>))
      else Inr st)"
  by pat_completeness auto
termination
  by (relation "measure (\<lambda>(M, src_enc, src_len, tgt_lang_id, max_lengths, global_max_len,
        sample_temperature, rng, st). global_max_len - cur_len st)") auto

declare generate_loop.simps [simp del]

text \<open>
  \<^verbatim>\<open>TransformerModel.generate\<close>: the token batch \<^verbatim>\<open>generated[:cur_len]\<close> and the lengths.
\<close>

definition generate ::
  "('h, 's, 'kv) transformer \<Rightarrow> 's list list \<Rightarrow> nat list \<Rightarrow> nat \<Rightarrow> max_len_arg \<Rightarrow>
   real option \<Rightarrow> (nat \<Rightarrow> nat \<Rightarrow> real list \<Rightarrow> nat) \<Rightarrow> error + (nat list list \<times> nat list)" where
  "generate M src_enc src_len tgt_lang_id mlen sample_temperature rng =
     ebind (max_lengths_of mlen (length src_len)) (\<lambda>(max_lengths, global_max_len).
       let bs = length src_len in
       if length src_enc \<noteq> bs then Inl AssertionError
       else ebind (initial_generated M global_max_len bs) (\<lambda>generated0.
         ebind (generate_loop M src_enc src_len tgt_lang_id max_lengths global_max_len
                  sample_temperature rng
                  \<lparr>generated = generated0, gen_len = replicate bs 1,
                   unfinished_sents = replicate bs 1, gcache = empty_cache,
                   previous_unfinished_mask = replicate bs True, cur_len = 1\<rparr>)
           (\<lambda>st.
              if length (filter (\<lambda>w. w = eos_index M) (concat (generated st))) \<noteq> 2 * bs
              then Inl AssertionError
              else Inr (take (cur_len st) (generated st), gen_len st))))"

subsection \<open>Invariants of the greedy decoder\<close>

text \<open>The position of batch row \<open>b\<close> among the rows that a mask selects.\<close>

definition rank :: "bool list \<Rightarrow> nat \<Rightarrow> nat" where
  "rank m b = length (filter id (take b m))"

text \<open>Column \<open>b\<close> of a tensor indexed by time step and batch row: one sentence.\<close>

definition column :: "'a list list \<Rightarrow> nat \<Rightarrow> 'a list" where
  "column G b = map (\<lambda>r. r ! b) G"

text \<open>
  A sentence that is still being generated at current length \<open>c\<close>: the start marker, no
  other end marker below \<open>c\<close>, padding from \<open>c\<close> on.
\<close>

definition seq_open :: "nat \<Rightarrow> nat \<Rightarrow> nat \<Rightarrow> nat list \<Rightarrow> bool" where
  "seq_open eos pad c col \<longleftrightarrow>
     col ! 0 = eos \<and> (\<forall>t. 1 \<le> t \<and> t < c \<longrightarrow> col ! t \<noteq> eos) \<and>
     (\<forall>t. c \<le> t \<and> t < length col \<longrightarrow> col ! t = pad)"

text \<open>
  A finished sentence: the start marker, the end marker at position \<open>e\<close>, no end marker
  in between, padding after \<open>e\<close>.
\<close>

definition seq_closed :: "nat \<Rightarrow> nat \<Rightarrow> nat \<Rightarrow> nat list \<Rightarrow> bool" where
  "seq_closed eos pad e col \<longleftrightarrow>
     1 \<le> e \<and> e < length col \<and> col ! 0 = eos \<and> col ! e = eos \<and>
     (\<forall>t. 1 \<le> t \<and> t < e \<longrightarrow> col ! t \<noteq> eos) \<and>
     (\<forall>t. e < t \<and> t < length col \<longrightarrow> col ! t = pad)"

text \<open>The invariant of the loop of \<^verbatim>\<open>generate\<close> on the token buffer and the counters.\<close>

definition gen_ok :: "('h, 's, 'kv) transformer \<Rightarrow> nat \<Rightarrow> nat \<Rightarrow> 'kv gen_state \<Rightarrow> bool" where
  "gen_ok M bs global_max_len st \<longleftrightarrow>
     length (generated st) = global_max_len \<and> (\<forall>r\<in>set (generated st). length r = bs) \<and>
     length (unfinished_sents st) = bs \<and> length (gen_len st) = bs \<and>
     1 \<le> cur_len st \<and> cur_len st \<le> global_max_len \<and>
     (\<forall>b<bs.
        (unfinished_sents st ! b = 1 \<and> gen_len st ! b = cur_len st \<and>
         seq_open (eos_index M) (pad_index M) (cur_len st) (column (generated st) b)) \<or>
        (unfinished_sents st ! b = 0 \<and>
         (\<exists>e<cur_len st. gen_len st ! b = e + 1 \<and>
            seq_closed (eos_index M) (pad_index M) e (column (generated st) b))))"

text \<open>The active mask of a loop state: the sentences that are not finished.\<close>

definition active :: "'kv gen_state \<Rightarrow> bool list" where
  "active st = map (\<lambda>u. u \<noteq> 0) (unfinished_sents st)"

text \<open>Every entry of the cache has \<open>n\<close> batch rows, and no identifier occurs twice.\<close>

definition cache_rows :: "'kv cache \<Rightarrow> nat \<Rightarrow> bool" where
  "cache_rows c n \<longleftrightarrow>
     distinct (map fst (c_layers c)) \<and>
     (\<forall>(lid, (k, v))\<in>set (c_layers c). length k = n \<and> length v = n)"

text \<open>The identifiers of the attention modules of a decoder.\<close>

definition layer_ids :: "('h, 's, 'kv) transformer \<Rightarrow> nat set" where
  "layer_ids M = self_id M ` {..<n_layers M} \<union> enc_id M ` {..<n_layers M}"

text \<open>
  The invariant of the loop of \<^verbatim>\<open>generate\<close> on the masks and the cache: the active set only
  shrinks, and the cache holds one batch row per sentence of the previous active set.
\<close>

definition masks_ok :: "('h, 's, 'kv) transformer \<Rightarrow> nat \<Rightarrow> 'kv gen_state \<Rightarrow> bool" where
  "masks_ok M bs st \<longleftrightarrow>
     length (previous_unfinished_mask st) = bs \<and>
     (\<forall>b<bs. unfinished_sents st ! b \<noteq> 0 \<longrightarrow> previous_unfinished_mask st ! b) \<and>
     cache_rows (gcache st) (length (filter id (previous_unfinished_mask st))) \<and>
     fst ` set (c_layers (gcache st)) \<subseteq> layer_ids M"

text \<open>
  The loop states of a call of \<^verbatim>\<open>generate\<close>: the state before the first iteration, and
  the state after every iteration that does not raise.
\<close>

inductive gen_reach ::
  "('h, 's, 'kv) transformer \<Rightarrow> 's list list \<Rightarrow> nat list \<Rightarrow> nat \<Rightarrow> nat list \<Rightarrow> nat \<Rightarrow>
   real option \<Rightarrow> (nat \<Rightarrow> nat \<Rightarrow> real list \<Rightarrow> nat) \<Rightarrow> 'kv gen_state \<Rightarrow> bool"
  for M src_enc src_len tgt_lang_id max_lengths global_max_len sample_temperature rng where
  start: "initial_generated M global_max_len (length src_len) = Inr generated0 \<Longrightarrow>
     gen_reach M src_enc src_len tgt_lang_id max_lengths global_max_len sample_temperature rng
       \<lparr>generated = generated0, gen_len = replicate (length src_len) 1,
        unfinished_sents = replicate (length src_len) 1, gcache = empty_cache,
        previous_unfinished_mask = replicate (length src_len) True, cur_len = 1\<rparr>"
| step: "gen_reach M src_enc src_len tgt_lang_id max_lengths global_max_len sample_temperature rng st \<Longrightarrow>
     cur_len st < global_max_len \<Longrightarrow>
     generate_step M src_enc src_len tgt_lang_id max_lengths global_max_len sample_temperature rng st
       = Inr st' \<Longrightarrow>
     gen_reach M src_enc src_len tgt_lang_id max_lengths global_max_len sample_temperature rng st'"

subsection \<open>Beam search decoder: TransformerModel.generate_beam\<close>

record ('kv, 'w) beam_state =
  b_generated :: "nat list list"
  generated_hyps :: "'w BeamHypotheses list"
  beam_scores :: "real list"
  b_cache :: "'kv cache"
  b_done :: "bool list"
  b_cur_len :: nat

text \<open>Indexing \<^verbatim>\<open>xs[idx]\<close> along the first axis by a tensor of indices.\<close>

definition gather :: "nat list \<Rightarrow> 'a list \<Rightarrow> error + 'a list" where
  "gather idx xs = (if \<exists>i\<in>set idx. \<not> i < length xs then Inl IndexError
                    else Inr (map (\<lambda>i. xs ! i) idx))"

text \<open>The re-indexing of every cache entry by \<^verbatim>\<open>beam_idx\<close>.\<close>

definition reindex_cache :: "nat list \<Rightarrow> 'kv cache \<Rightarrow> error + 'kv cache" where
  "reindex_cache beam_idx c =
     ebind (mapM (\<lambda>(lid, (k, v)).
                    ebind (gather beam_idx k) (\<lambda>k'.
                      ebind (gather beam_idx v) (\<lambda>v'. Inr (lid, (k', v')))))
              (c_layers c))
       (\<lambda>es. Inr (c\<lparr>c_layers := es\<rparr>))"

text \<open>
  The walk over the candidates of one sentence, in score order: a candidate that ends
  the sequence goes to the pool, another one to the next beam; the walk stops when the
  next beam is full.
\<close>

fun walk_candidates ::
  "('h, 's, 'kv) transformer \<Rightarrow> nat \<Rightarrow> nat list list \<Rightarrow> nat \<Rightarrow> nat \<Rightarrow> nat \<Rightarrow>
   (real \<times> nat) list \<Rightarrow> nat BeamHypotheses \<Rightarrow> (real \<times> nat \<times> nat) list \<Rightarrow>
   error + (nat BeamHypotheses \<times> (real \<times> nat \<times> nat) list)" where
  "walk_candidates M beam_size gen cur global_max_len sent_id [] p next_sent_beam =
     Inr (p, next_sent_beam)"
| "walk_candidates M beam_size gen cur global_max_len sent_id ((val, idx) # cs) p next_sent_beam =
     (let beam_id = idx div n_words M; word_id = idx mod n_words M in
      case (if word_id = eos_index M \<or> cur + 1 = global_max_len
            then (case add p (map (\<lambda>r. r ! (sent_id * beam_size + beam_id)) (take cur gen)) val of
                    Inl e \<Rightarrow> Inl e | Inr p' \<Rightarrow> Inr (p', next_sent_beam))
            else Inr (p, next_sent_beam @ [(val, word_id, sent_id * beam_size + beam_id)])) of
        Inl e \<Rightarrow> Inl e
      | Inr (p', nsb) \<Rightarrow>
          if length nsb = beam_size then Inr (p', nsb)
          else walk_candidates M beam_size gen cur global_max_len sent_id cs p' nsb)"

text \<open>
  The body of the loop over the sentences. The first assertion of the source reads
  \<^verbatim>\<open>assert len(next_sent_beam) == 0 if cur_len + 1 == global_max_len else beam_size\<close>:
  away from the last step it tests \<^verbatim>\<open>beam_size\<close> itself.
\<close>

definition beam_sentence ::
  "('h, 's, 'kv) transformer \<Rightarrow> nat \<Rightarrow> nat list list \<Rightarrow> nat \<Rightarrow> nat \<Rightarrow>
   (real \<times> nat) list list \<Rightarrow> nat \<Rightarrow>
   bool list \<times> nat BeamHypotheses list \<times> (real \<times> nat \<times> nat) list \<Rightarrow>
   error + (bool list \<times> nat BeamHypotheses list \<times> (real \<times> nat \<times> nat) list)" where
  "beam_sentence M beam_size gen cur global_max_len nxt sent_id st =
     (case st of (dn, pools, next_batch_beam) \<Rightarrow>
      ebind (if dn ! sent_id then Inr True
             else is_done (pools ! sent_id) (Max (set (map fst (nxt ! sent_id)))))
        (\<lambda>d.
           if d then Inr (dn[sent_id := d], pools,
                          next_batch_beam @ replicate beam_size (0, pad_index M, 0))
           else ebind (walk_candidates M beam_size gen cur global_max_len sent_id
                         (nxt ! sent_id) (pools ! sent_id) [])
             (\<lambda>(p', nsb).
                if \<not> (if cur + 1 = global_max_len then length nsb = 0 else beam_size \<noteq> 0)
                then Inl AssertionError
                else
                  (let nsb' = (if length nsb = 0 then replicate beam_size (0, pad_index M, 0)
                               else nsb);
                       nbb = next_batch_beam @ nsb'
                   in if length nbb \<noteq> beam_size * (sent_id + 1) then Inl AssertionError
                      else Inr (dn[sent_id := d], pools[sent_id := p'], nbb)))))"

text \<open>One iteration of the \<^verbatim>\<open>while\<close> loop of \<^verbatim>\<open>generate_beam\<close>.\<close>

definition beam_step ::
  "('h, 's, 'kv) transformer \<Rightarrow> 's list list \<Rightarrow> nat list \<Rightarrow> nat \<Rightarrow> nat \<Rightarrow> nat \<Rightarrow> nat \<Rightarrow>
   ('kv, nat) beam_state \<Rightarrow> error + ('kv, nat) beam_state" where
  "beam_step M src_enc src_len tgt_lang_id beam_size bs global_max_len st =
     (let cur = b_cur_len st; n = bs * beam_size in
      ebind (fwd M (take cur (b_generated st)) (replicate n cur) True
               (Some (src_enc, src_len))
               (Some (map (\<lambda>t. replicate n t) [0..<cur]))
               (Some (replicate cur (replicate n tgt_lang_id)))
               True (Some (b_cache st)))
        (\<lambda>(tensor, cache1).
         if length tensor \<noteq> 1 \<or> length (last tensor) \<noteq> n then Inl AssertionError
         else
           (let scores = map (\<lambda>h. log_softmax (pred_scores M h)) (last tensor) in
            if \<exists>r\<in>set scores. length r \<noteq> n_words M then Inl AssertionError
            else
              (let scores' = map (\<lambda>(r, b). map (\<lambda>x. x + b) r) (zip scores (beam_scores st)) in
               ebind (mapM (\<lambda>s. topk (2 * beam_size)
                                   (concat (take beam_size (drop (s * beam_size) scores'))))
                        [0..<bs])
                 (\<lambda>nxt.
                  ebind (foldM (beam_sentence M beam_size (b_generated st) cur global_max_len nxt)
                           [0..<bs] (b_done st, generated_hyps st, []))
                    (\<lambda>(dn, pools, next_batch_beam).
                     if length next_batch_beam \<noteq> bs * beam_size then Inl AssertionError
                     else
                       (let beam_words = map (\<lambda>x. fst (snd x)) next_batch_beam;
                            beam_idx = map (\<lambda>x. snd (snd x)) next_batch_beam
                        in ebind (mapM (gather beam_idx) (b_generated st))
                          (\<lambda>gen'.
                           ebind (reindex_cache beam_idx (the cache1))
                             (\<lambda>cache2.
                              Inr (st\<lparr>b_generated := gen'[cur := beam_words],
                                      generated_hyps := pools,
                                      beam_scores := map fst next_batch_beam,
                                      b_cache := cache2,
                                      b_done := dn,
                                      b_cur_len := cur + 1\<rparr>))))))))))"

function beam_loop ::
  "('h, 's, 'kv) transformer \<Rightarrow> 's list list \<Rightarrow> nat list \<Rightarrow> nat \<Rightarrow> nat \<Rightarrow> nat \<Rightarrow> nat \<Rightarrow>
   ('kv, nat) beam_state \<Rightarrow> error + ('kv, nat) beam_state" where
  "beam_loop M src_enc src_len tgt_lang_id beam_size bs global_max_len st =
     (if b_cur_len st < global_max_len then
        (case beam_step M src_enc src_len tgt_lang_id beam_size bs global_max_len st of
           Inl e \<Rightarrow> Inl e
         | Inr st' \<Rightarrow>
             if \<forall>d\<in>set (b_done st'). d then Inr st'
             else beam_loop M src_enc src_len tgt_lang_id beam_size bs global_max_len
                    (st'\<lparr>b_cur_len := b_cur_len st + 1\<rparr>))
      else Inr st)"
  by pat_completeness auto
termination
  by (relation "measure (\<lambda>(M, src_enc, src_len, tgt_lang_id, beam_size, bs, global_max_len, st).
        global_max_len - b_cur_len st)") auto

declare beam_loop.simps [simp del]

text \<open>
  The selection of the best hypotheses: per sentence, the pool's sequences by decreasing
  score (the sort is stable), and one more than the longest length. \<^verbatim>\<open>max\<close> of an empty
  list raises \<^verbatim>\<open>ValueError\<close>.
\<close>

definition best_hyps :: "nat BeamHypotheses \<Rightarrow> error + (nat list list \<times> nat)" where
  "best_hyps p =
     (let sorted_hyps = map snd (sort_key (\<lambda>x. - fst x) (hyp p)) in
      if sorted_hyps = [] then Inl ValueError
      else Inr (sorted_hyps, Max (set (map length sorted_hyps)) + 1))"

text \<open>
  The column of \<^verbatim>\<open>decoded\<close> for hypothesis \<open>j\<close> of a sentence: the hypothesis, the end
  marker, then padding; padding all along when the sentence has no hypothesis \<open>j\<close>.
\<close>

definition decoded_column ::
  "('h, 's, 'kv) transformer \<Rightarrow> nat \<Rightarrow> nat list list \<Rightarrow> nat \<Rightarrow> nat list" where
  "decoded_column M T hypo_list j =
     (if j < length hypo_list
      then (let hypo = hypo_list ! j in
            take T (hypo @ eos_index M # replicate (T - length hypo - 1) (pad_index M)))
      else replicate T (pad_index M))"

text \<open>
  \<^verbatim>\<open>TransformerModel.generate_beam\<close>: the tensor \<^verbatim>\<open>decoded\<close>, indexed by time step,
  hypothesis rank and sentence, and \<^verbatim>\<open>tgt_len\<close>.
\<close>

definition generate_beam ::
  "('h, 's, 'kv) transformer \<Rightarrow> 's list list \<Rightarrow> nat list \<Rightarrow> nat \<Rightarrow> nat \<Rightarrow> real \<Rightarrow> bool \<Rightarrow>
   max_len_arg \<Rightarrow> error + (nat list list list \<times> nat list)" where
  "generate_beam M src_enc src_len tgt_lang_id beam_size lp es mlen =
     ebind (max_lengths_of mlen (length src_len)) (\<lambda>(max_lengths, global_max_len).
       let bs = length src_len in
       if length src_enc \<noteq> bs then Inl AssertionError
       else if \<not> 1 \<le> beam_size then Inl AssertionError
       else ebind (initial_generated M global_max_len (bs * beam_size)) (\<lambda>generated0.
         ebind (beam_loop M (concat (map (replicate beam_size) src_enc))
                  (concat (map (replicate beam_size) src_len)) tgt_lang_id beam_size bs
                  global_max_len
                  \<lparr>b_generated = generated0,
                   generated_hyps = replicate bs
                     (BeamHypotheses_init beam_size (int global_max_len) lp es),
                   beam_scores = concat (replicate bs (0 # replicate (beam_size - 1) (- 1000000000))),
                   b_cache = empty_cache,
                   b_done = replicate bs False,
                   b_cur_len = 1\<rparr>)
           (\<lambda>st.
              ebind (mapM best_hyps (generated_hyps st)) (\<lambda>best.
                if best = [] then Inl RuntimeError
                else if \<exists>hs\<in>set (map fst best). beam_size < length hs then Inl IndexError
                else
                  (let tgt_len = map snd best;
                       T = Max (set tgt_len);
                       cols = map (\<lambda>hs. map (decoded_column M T hs) [0..<beam_size]) (map fst best);
                       decoded = map (\<lambda>t. map (\<lambda>j. map (\<lambda>c. c ! j ! t) cols) [0..<beam_size]) [0..<T]
                   in if length (filter (\<lambda>w. w = eos_index M) (concat (concat decoded)))
                           \<noteq> 2 * beam_size * bs
                      then Inl AssertionError
                      else Inr (decoded, tgt_len))))))"

subsection \<open>A small network for concrete runs\<close>

text \<open>
  A one-layer decoder over the vocabulary \<open>{0, 1, 2, 3}\<close> with end marker 1 and padding 2.
  The hidden state of a position is its token. After the start marker the prediction
  layer gives the tokens 0, 1, 2, 3 the log-probabilities of \<open>1/4, 1/2, 1/8, 1/8\<close>, after
  any other token those of \<open>1/8, 1/2, 1/8, 1/4\<close>.
\<close>

definition toy :: "(nat, nat, nat) transformer" where
  "toy = \<lparr>n_layers = 1, is_decoder = True, n_words = 4, n_langs = 2, use_lang_emb = True,
     eos_index = 1, pad_index = 2, first_layer_id = 0,
     embed = (\<lambda>w p l. w), mask_mul = (\<lambda>b h. if b then h else 0),
     self_kv = (\<lambda>i h. (h, h)), enc_kv = (\<lambda>i s. (s, s)),
     attend = (\<lambda>lid q kvs. q), norm1 = (\<lambda>i t a. a), norm15 = (\<lambda>i t a. a),
     ffn = (\<lambda>i t. t),
     pred_scores = (\<lambda>h. if h = 1 then [- (2 * ln 2), - ln 2, - (3 * ln 2), - (3 * ln 2)]
                         else [- (3 * ln 2), - ln 2, - (3 * ln 2), - (2 * ln 2)])\<rparr>"



text \<open>
  A random generator for sampled runs of \<open>toy\<close>: row 0 draws token 0 at step 1; every other
  draw is the end marker.
\<close>

definition toy_rng :: "nat \<Rightarrow> nat \<Rightarrow> real list \<Rightarrow> nat" where
  "toy_rng s b p = (if s = 1 \<and> b = 0 then 0 else 1)"

text \<open>
  The loop state of \<^verbatim>\<open>generate\<close> after the first iteration of such a run on two sentences:
  the second sentence has finished, and the cache still holds two batch rows.
\<close>

definition toy_state1 :: "nat gen_state" where
  "toy_state1 =
     \<lparr>generated = [[1, 1], [0, 1], [2, 2], [2, 2]], gen_len = [2, 2],
      unfinished_sents = [1, 0],
      gcache = \<lparr>c_slen = 1,
                c_layers = [(0, ([[1], [1]], [[1], [1]])),
                            (1, ([[7, 8, 9], [4, 5, 6]], [[7, 8, 9], [4, 5, 6]]))]\<rparr>,
      previous_unfinished_mask = [True, True], cur_len = 2\<rparr>"


section \<open>Properties\<close>

subsection \<open>Hypothesis pool\<close>

lemma py_pow_pos: "0 < n \<Longrightarrow> py_pow (int n) e = Inr (real n powr e)"
  by (simp add: py_pow_def)

lemma enum_map: "map (\<lambda>(idx, (s, _)). (s, idx)) (enumerate 0 h) = map (\<lambda>i. (fst (h ! i), i)) [0..<length h]"
  by (rule nth_equalityI) (auto simp: nth_enumerate_eq split: prod.splits)

lemma set_sorted_scores: "set (sorted_scores h) = (\<lambda>i. (fst (h ! i), i)) ` {..<length h}"
  by (auto simp: sorted_scores_def enum_map)

lemma length_sorted_scores: "length (sorted_scores h) = length h"
  by (simp add: sorted_scores_def)

lemma distinct_sorted_scores: "distinct (sorted_scores h)"
  by (auto simp: sorted_scores_def enum_map distinct_map inj_on_def)

lemma sorted_sorted_scores: "sorted (sorted_scores h)"
  by (simp add: sorted_scores_def)

lemma length_delete_at: "i < length xs \<Longrightarrow> length (delete_at i xs) = length xs - 1"
  by (simp add: delete_at_def)

lemma nth_delete_at: "i < length xs \<Longrightarrow> j < length xs - 1 \<Longrightarrow>
  delete_at i xs ! j = (if j < i then xs ! j else xs ! Suc j)"
  by (auto simp: delete_at_def nth_append min_def)

lemma set_delete_at: "i < length xs \<Longrightarrow> set (delete_at i xs) = (\<lambda>j. xs ! j) ` ({..<length xs} - {i})"
proof (intro equalityI subsetI)
  fix x assume i: "i < length xs" and "x \<in> set (delete_at i xs)"
  then obtain j where j: "j < length xs - 1" "x = delete_at i xs ! j"
    by (auto simp: in_set_conv_nth length_delete_at)
  show "x \<in> (\<lambda>j. xs ! j) ` ({..<length xs} - {i})"
  proof (cases "j < i")
    case True then show ?thesis using i j by (auto simp: nth_delete_at)
  next
    case False
    then have "x = xs ! Suc j" "Suc j < length xs" "Suc j \<noteq> i" using i j by (auto simp: nth_delete_at)
    then show ?thesis by blast
  qed
next
  fix x assume i: "i < length xs" and "x \<in> (\<lambda>j. xs ! j) ` ({..<length xs} - {i})"
  then obtain j where j: "j < length xs" "j \<noteq> i" "x = xs ! j" by auto
  show "x \<in> set (delete_at i xs)"
  proof (cases "j < i")
    case True
    then have "delete_at i xs ! j = x" "j < length (delete_at i xs)"
      using i j by (auto simp: nth_delete_at length_delete_at)
    then show ?thesis by (metis nth_mem)
  next
    case False
    then have "delete_at i xs ! (j - 1) = x" "j - 1 < length (delete_at i xs)"
      using i j by (auto simp: nth_delete_at length_delete_at)
    then show ?thesis by (metis nth_mem)
  qed
qed

lemma fst_mono_lex: "(a::real \<times> nat) \<le> b \<Longrightarrow> fst a \<le> fst b"
  by (cases a; cases b) (auto simp: less_eq_prod_def)

lemma sorted_scores_evict:
  assumes len: "2 \<le> length hs"
  defines "ss \<equiv> sorted_scores hs"
  defines "i0 \<equiv> snd (ss ! 0)"
  shows "i0 < length hs"
    and "fst (hs ! i0) = Min (fst ` set hs)"
    and "fst (ss ! 1) = Min (fst ` set (delete_at i0 hs))"
    and "\<forall>j<length hs. fst (hs ! j) = fst (hs ! i0) \<longrightarrow> i0 \<le> j"
proof -
  have l: "length ss = length hs" by (simp add: ss_def length_sorted_scores)
  obtain a b rest where ss: "ss = a # b # rest"
    using len l by (cases ss; cases "tl ss") auto
  have srt: "sorted ss" and dst: "distinct ss" 
    by (simp_all add: ss_def sorted_sorted_scores distinct_sorted_scores)
  have st: "set ss = (\<lambda>i. (fst (hs ! i), i)) ` {..<length hs}"
    by (simp add: ss_def set_sorted_scores)
  have a0: "ss ! 0 = a" and b1: "ss ! 1 = b" by (simp_all add: ss)
  have "a \<in> set ss" by (simp add: ss)
  then obtain i where i: "i < length hs" "a = (fst (hs ! i), i)" using st by auto
  then have i0: "i0 = i" by (simp add: i0_def a0)
  show 1: "i0 < length hs" using i i0 by simp
  have amin: "\<forall>x \<in> set ss. a \<le> x" using srt by (auto simp: ss)
  have "\<forall>s \<in> fst ` set hs. fst (hs ! i0) \<le> s"
  proof
    fix s assume "s \<in> fst ` set hs"
    then obtain j where j: "j < length hs" "s = fst (hs ! j)" by (auto simp: in_set_conv_nth)
    then have "(s, j) \<in> set ss" using st by auto
    then have "a \<le> (s, j)" using amin by blast
    then show "fst (hs ! i0) \<le> s" using i i0 by (auto dest: fst_mono_lex)
  qed
  moreover have "fst (hs ! i0) \<in> fst ` set hs" using 1 by simp
  ultimately show "fst (hs ! i0) = Min (fst ` set hs)"
    by (intro Min_eqI[symmetric]) auto
  show "\<forall>j<length hs. fst (hs ! j) = fst (hs ! i0) \<longrightarrow> i0 \<le> j"
  proof (intro allI impI)
    fix j assume j: "j < length hs" "fst (hs ! j) = fst (hs ! i0)"
    have "(fst (hs ! j), j) \<in> set ss" using st j(1) by auto
    then have "a \<le> (fst (hs ! j), j)" using amin by blast
    then show "i0 \<le> j" using i i0 j by (auto simp: less_eq_prod_def)
  qed
  have rest: "set (b # rest) = set ss - {a}" using dst by (auto simp: ss)
  have bmin: "\<forall>x \<in> set (b # rest). b \<le> x" using srt by (auto simp: ss)
  have img: "fst ` set (b # rest) = fst ` set (delete_at i0 hs)"
  proof -
    have "set ss - {a} = (\<lambda>j. (fst (hs ! j), j)) ` ({..<length hs} - {i0})"
      using st i i0 by auto
    then have "fst ` set (b # rest) = (\<lambda>j. fst (hs ! j)) ` ({..<length hs} - {i0})"
      using rest by (simp add: image_image)
    also have "\<dots> = fst ` set (delete_at i0 hs)"
      using 1 by (simp add: set_delete_at image_image)
    finally show ?thesis .
  qed
  have "fst b = Min (fst ` set (b # rest))"
    using bmin by (intro Min_eqI[symmetric]) (auto dest: fst_mono_lex)
  then show "fst (ss ! 1) = Min (fst ` set (delete_at i0 hs))"
    using img b1 by simp
qed

lemma score_nonpos: "h \<noteq> [] \<Longrightarrow> s \<le> 0 \<Longrightarrow> s / real (length h) powr lp \<le> 0"
  by (simp add: divide_nonpos_pos)

lemma add_step:
  assumes ok: "pool_ok p" and n: "1 \<le> n_hyp p" and h: "h \<noteq> []" and s: "s \<le> 0"
  shows "\<exists>p'. add p h s = Inr p' \<and> add_post p h s p' \<and> pool_ok p' \<and>
           n_hyp p' = n_hyp p \<and> length_penalty p' = length_penalty p"
proof -
  define sc where "sc = s / real (length h) powr length_penalty p"
  define hs where "hs = hyp p @ [(sc, h)]"
  have pw: "py_pow (int (length h)) (length_penalty p) = Inr (real (length h) powr length_penalty p)"
    using h by (simp add: py_pow_pos)
  have dv: "py_div s (real (length h) powr length_penalty p) = Inr sc"
    using h by (simp add: py_div_def sc_def)
  have sc0: "sc \<le> 0" unfolding sc_def using h s by (rule score_nonpos)
  have len: "length (hyp p) \<le> n_hyp p" using ok by (simp add: pool_ok_def)
  consider (A) "length (hyp p) < n_hyp p"
    | (B) "length (hyp p) = n_hyp p" "sc > worst_score p"
    | (C) "length (hyp p) = n_hyp p" "\<not> sc > worst_score p"
    using len by linarith
  then show ?thesis
  proof cases
    case A
    define p' where "p' = p\<lparr>hyp := hs, worst_score := min sc (worst_score p)\<rparr>"
    have r: "add p h s = Inr p'"
      using A by (simp add: add_def pw dv p'_def hs_def Let_def)
    have w: "worst_score p' = Min (fst ` set (hyp p'))"
    proof (cases "hyp p = []")
      case True
      then have "worst_score p = 1000000000" using ok by (simp add: pool_ok_def)
      then show ?thesis using True sc0 by (simp add: p'_def hs_def min_def)
    next
      case False
      then have "worst_score p = Min (fst ` set (hyp p))" using ok by (simp add: pool_ok_def)
      then show ?thesis using False by (simp add: p'_def hs_def min.commute)
    qed
    have "add_post p h s p'"
      using A w by (simp add: add_post_def Let_def sc_def[symmetric] hs_def[symmetric]) (simp add: p'_def hs_def)
    moreover have "pool_ok p'"
      using A w by (simp add: pool_ok_def) (simp add: p'_def hs_def)
    ultimately show ?thesis using r by (auto simp: p'_def)
  next
    case B
    define ss where "ss = sorted_scores hs"
    define i0 where "i0 = snd (ss ! 0)"
    define p' where "p' = p\<lparr>hyp := delete_at i0 hs, worst_score := fst (ss ! 1)\<rparr>"
    have l2: "2 \<le> length hs" using B n by (simp add: hs_def)
    have r: "add p h s = Inr p'"
      using B l2 by (simp add: add_def pw dv p'_def hs_def[symmetric] Let_def ss_def[symmetric]
          i0_def[symmetric]) (simp add: hs_def ss_def length_sorted_scores)
    note ev = sorted_scores_evict[OF l2, folded ss_def, folded i0_def]
    have ne: "hyp p \<noteq> []" using B n by auto
    then have wp: "worst_score p = Min (fst ` set (hyp p))" using ok by (simp add: pool_ok_def)
    have "i0 \<noteq> length (hyp p)"
    proof
      assume e: "i0 = length (hyp p)"
      then have "sc = Min (fst ` set hs)" using ev(2) by (simp add: hs_def)
      also have "\<dots> \<le> Min (fst ` set (hyp p))"
        using ne by (intro Min_antimono) (auto simp: hs_def)
      finally show False using B wp by simp
    qed
    then have i0: "i0 < length (hyp p)" using ev(1) by (simp add: hs_def)
    then have f: "fst (hyp p ! i0) = Min (fst ` set hs)"
      using ev(2) by (simp add: hs_def nth_append)
    have lp': "length (hyp p') = n_hyp p"
      using ev(1) B by (simp add: p'_def length_delete_at) (simp add: hs_def)
    then have ne': "hyp p' \<noteq> []" using n by auto
    have w: "worst_score p' = Min (fst ` set (hyp p'))" using ev(3) by (simp add: p'_def)
    have "add_post p h s p'"
      using B w lp' ne' i0 f
      by (simp add: add_post_def Let_def sc_def[symmetric] hs_def[symmetric]) (auto simp: p'_def)
    moreover have "pool_ok p'" using w lp' ne' by (simp add: pool_ok_def) (simp add: p'_def)
    ultimately show ?thesis using r by (auto simp: p'_def)
  next
    case C
    have r: "add p h s = Inr p" using C by (simp add: add_def pw dv sc_def)
    have ne: "hyp p \<noteq> []" using C n by auto
    then have wp: "worst_score p = Min (fst ` set (hyp p))" using ok by (simp add: pool_ok_def)
    have "add_post p h s p"
      using C ne wp by (simp add: add_post_def Let_def sc_def[symmetric])
    then show ?thesis using r ok by auto
  qed
qed

lemma adds_ok:
  assumes "pool_ok p" "1 \<le> n_hyp p" "\<forall>(h, s)\<in>set xs. h \<noteq> [] \<and> s \<le> 0"
  shows "\<exists>p'. adds p xs = Inr p' \<and> pool_ok p' \<and> n_hyp p' = n_hyp p \<and>
           length_penalty p' = length_penalty p"
  using assms
proof (induction xs arbitrary: p)
  case Nil
  then show ?case by simp
next
  case (Cons x xs)
  obtain h s where x: "x = (h, s)" by (cases x)
  with Cons.prems obtain p1 where p1: "add p h s = Inr p1" "pool_ok p1" "n_hyp p1 = n_hyp p"
    "length_penalty p1 = length_penalty p"
    using add_step[of p h s] by auto
  with Cons.IH[of p1] Cons.prems show ?case by (auto simp: x)
qed

lemma adds_append: "adds p (xs @ ys) = (case adds p xs of Inl e \<Rightarrow> Inl e | Inr p' \<Rightarrow> adds p' ys)"
  by (induction xs arbitrary: p) (auto split: sum.splits)

lemma pool_ok_init: "pool_ok (BeamHypotheses_init n m lp es)"
  by (simp add: pool_ok_def BeamHypotheses_init_def)

text \<open>
  Claim C7. For a pool of width \<open>n \<ge> 1\<close> and any sequence of \<^verbatim>\<open>add\<close> calls with non-empty
  hypotheses and log-probability sums (which are at most 0), every call of the sequence
  returns, and satisfies \<open>add_post\<close>: the hypothesis is inserted iff the pool holds fewer
  than \<open>n\<close> entries or its length-normalised score strictly exceeds the worst retained
  score; afterwards the pool holds at most \<open>n\<close> entries, at most one entry (one of least
  score) was evicted, and the worst-score tracker is the minimum retained score.
\<close>

theorem pool_add_sequence:
  fixes xs :: "('w list \<times> real) list"
  assumes "1 \<le> n" and "\<forall>(h, s)\<in>set xs. h \<noteq> [] \<and> s \<le> 0" and "xs = ys @ (h, s) # zs"
  shows "\<exists>p p'. adds (BeamHypotheses_init n m lp es) ys = Inr p \<and> add p h s = Inr p' \<and>
           n_hyp p = n \<and> length_penalty p = lp \<and> add_post p h s p'"
proof -
  let ?p0 = "BeamHypotheses_init n m lp es :: 'w BeamHypotheses"
  have p0: "pool_ok ?p0" "n_hyp ?p0 = n" "length_penalty ?p0 = lp"
    by (simp_all add: pool_ok_init) (simp_all add: BeamHypotheses_init_def)
  have ys: "\<forall>(h, s)\<in>set ys. h \<noteq> [] \<and> s \<le> 0" and hs: "h \<noteq> []" "s \<le> 0"
    using assms(2,3) by auto
  obtain p where p: "adds ?p0 ys = Inr p" "pool_ok p" "n_hyp p = n" "length_penalty p = lp"
    using adds_ok[OF p0(1) _ ys] assms(1) p0 by auto
  then obtain p' where "add p h s = Inr p'" "add_post p h s p'"
    using add_step[of p h s] hs assms(1) by auto
  with p show ?thesis by blast
qed

lemma init_max_len: "max_len (BeamHypotheses_init n m lp es) = m - 1"
  by (simp add: BeamHypotheses_init_def)

text \<open>A run of three insertions into a pool of width two: the third evicts the first.\<close>

theorem pool_add_sequence_witness:
  "adds (BeamHypotheses_init 2 5 1 False) [([1::nat], - 2), ([1, 2], - 3), ([1, 3], - 2)] =
     Inr \<lparr>max_len = 4, length_penalty = 1, early_stopping = False, n_hyp = 2,
          hyp = [(- (3 / 2), [1, 2]), (- 1, [1, 3])], worst_score = - (3 / 2)\<rparr> \<and>
   (\<exists>p p'. adds (BeamHypotheses_init 2 5 1 False) [([1::nat], - 2), ([1, 2], - 3)] = Inr p \<and>
      add p [1, 3] (- 2) = Inr p' \<and> n_hyp p = 2 \<and> length_penalty p = 1 \<and>
      add_post p [1, 3] (- 2) p')"
proof -
  have e: "adds (BeamHypotheses_init 2 5 1 False) [([1::nat], - 2), ([1, 2], - 3), ([1, 3], - 2)] =
     Inr \<lparr>max_len = 4, length_penalty = 1, early_stopping = False, n_hyp = 2,
          hyp = [(- (3 / 2), [1, 2]), (- 1, [1, 3])], worst_score = - (3 / 2)\<rparr>"
    by (simp add: add_def BeamHypotheses_init_def py_pow_def py_div_def sorted_scores_def
        enumerate_eq_zip delete_at_def)
  show ?thesis
    using e pool_add_sequence[of 2 "[([1::nat], - 2), ([1, 2], - 3), ([1, 3], - 2)]"
        "[([1::nat], - 2), ([1, 2], - 3)]" "[1, 3]" "- 2" "[]" 5 1 False]
    by simp
qed

text \<open>
  Claim C8. \<^verbatim>\<open>is_done\<close> is false while fewer than \<open>n_hyp\<close> hypotheses are held; with early
  stopping it is true once \<open>n_hyp\<close> are held; otherwise it is true exactly when the worst
  retained score is at least the best running score divided by the maximum-length
  normaliser \<^verbatim>\<open>self.max_len ** self.length_penalty\<close> (for a positive \<open>max_len\<close> the power
  \<open>max_len powr length_penalty\<close>). The pool's \<open>max_len\<close> is the constructor's argument minus
  one (lemma \<open>init_max_len\<close>): the longest hypothesis, not counting the start marker.
\<close>

theorem is_done_spec:
  "(length (hyp p) < n_hyp p \<longrightarrow> is_done p b = Inr False) \<and>
   (n_hyp p \<le> length (hyp p) \<and> early_stopping p \<longrightarrow> is_done p b = Inr True) \<and>
   (n_hyp p \<le> length (hyp p) \<and> \<not> early_stopping p \<and>
      py_pow (max_len p) (length_penalty p) = Inr d \<and> d \<noteq> 0 \<longrightarrow>
      is_done p b = Inr (worst_score p \<ge> b / d)) \<and>
   (0 < max_len p \<longrightarrow>
      py_pow (max_len p) (length_penalty p) =
        Inr (real_of_int (max_len p) powr length_penalty p) \<and>
      real_of_int (max_len p) powr length_penalty p \<noteq> 0)"
  by (simp add: is_done_def py_div_def py_pow_def)

theorem is_done_spec_witness:
  "is_done \<lparr>max_len = 2, length_penalty = 1, early_stopping = False, n_hyp = 1,
            hyp = [(- 1, [1::nat])], worst_score = - 1\<rparr> (- (5 / 2)) = Inr True"
proof -
  have "py_pow 2 1 = Inr 2" by (simp add: py_pow_def)
  then show ?thesis
    using is_done_spec[of "\<lparr>max_len = 2, length_penalty = 1, early_stopping = False, n_hyp = 1,
            hyp = [(- 1, [1::nat])], worst_score = - 1\<rparr>" "- (5 / 2)" 2]
    by simp
qed

text \<open>
  Claim C10. On a pool that holds exactly \<open>n_hyp\<close> hypotheses, an \<^verbatim>\<open>add\<close> whose normalised
  score equals the worst retained score changes nothing: neither the entries nor the
  tracker.
\<close>

theorem add_tie_rejected:
  assumes "length (hyp p) = n_hyp p"
    and "py_pow (int (length h)) (length_penalty p) = Inr d" and "d \<noteq> 0"
    and "s / d = worst_score p"
  shows "add p h s = Inr p"
  using assms by (simp add: add_def py_div_def)

theorem add_tie_rejected_witness:
  "add \<lparr>max_len = 4, length_penalty = 1, early_stopping = False, n_hyp = 2,
        hyp = [(- (3 / 2), [1, 2]), (- 1, [1, 3])], worst_score = - (3 / 2)\<rparr> [1::nat, 4] (- 3) =
   Inr \<lparr>max_len = 4, length_penalty = 1, early_stopping = False, n_hyp = 2,
        hyp = [(- (3 / 2), [1, 2]), (- 1, [1, 3])], worst_score = - (3 / 2)\<rparr>"
  using add_tie_rejected[of "\<lparr>max_len = 4, length_penalty = 1, early_stopping = False, n_hyp = 2,
        hyp = [(- (3 / 2), [1, 2]), (- 1, [1, 3])], worst_score = - (3 / 2)\<rparr>" "[1::nat, 4]" 2 "- 3"]
  by (simp add: py_pow_def)

subsection \<open>Masks\<close>

text \<open>
  Claim C2 as stated fails: the causal mask is not combined with the validity mask.
  With \<open>slen = 2\<close> and \<open>lengths = [1]\<close>, entry \<open>(0, 1, 1)\<close> is true although key position 1
  is not below the length 1.
\<close>

theorem get_masks_causal_counterexample:
  "get_masks 2 [1] True = Inr ([[True, False]], Mask3 [[[True, False], [True, True]]]) \<and>
   attn_at (Mask3 [[[True, False], [True, True]]]) 0 1 1 \<noteq> ((1::nat) \<le> 1 \<and> 1 < [1::nat] ! 0)"
  by (simp add: get_masks_def Let_def upt_rec)

text \<open>
  Claim C2, amended. In causal mode \<^verbatim>\<open>get_masks\<close> returns, for a non-empty length vector
  bounded by \<open>slen\<close>, an attention mask of shape \<open>(B, L, L)\<close> whose entry \<open>(b, q, k)\<close> is true
  iff \<open>k \<le> q\<close>, whatever the lengths; the validity condition \<open>t < lengths[b]\<close> is carried by
  the separate mask of shape \<open>(B, L)\<close>.
\<close>

theorem get_masks_causal:
  assumes "lengths \<noteq> []" and "\<forall>l\<in>set lengths. l \<le> slen"
  shows "\<exists>mask m. get_masks slen lengths True = Inr (mask, Mask3 m) \<and>
           length m = length lengths \<and>
           (\<forall>b<length lengths. length (m ! b) = slen \<and>
              (\<forall>q<slen. length (m ! b ! q) = slen \<and>
                 (\<forall>k<slen. attn_at (Mask3 m) b q k = (k \<le> q)))) \<and>
           length mask = length lengths \<and>
           (\<forall>b<length lengths. length (mask ! b) = slen \<and>
              (\<forall>t<slen. mask ! b ! t = (t < lengths ! b)))"
  using assms by (simp add: get_masks_def Let_def)

theorem get_masks_causal_witness:
  "\<exists>mask m. get_masks 2 [1] True = Inr (mask, Mask3 m) \<and> attn_at (Mask3 m) 0 1 1 \<and> \<not> mask ! 0 ! 1"
  using get_masks_causal[of "[1]" 2] by auto

subsection \<open>Incremental decoder pass\<close>

lemma ebind_Inr_iff: "ebind m f = Inr y \<longleftrightarrow> (\<exists>a. m = Inr a \<and> f a = Inr y)"
  by (cases m) (auto simp: ebind_def)

lemma mapM_Inr: "mapM f xs = Inr ys \<Longrightarrow> length ys = length xs \<and> (\<forall>i<length xs. f (xs ! i) = Inr (ys ! i))"
proof (induction xs arbitrary: ys)
  case Nil then show ?case by simp
next
  case (Cons x xs)
  then obtain y ys' where y: "f x = Inr y" "mapM f xs = Inr ys'" "ys = y # ys'"
    by (auto split: sum.splits)
  with Cons.IH[of ys'] show ?case by (auto simp: nth_Cons split: nat.splits)
qed

lemma foldM_append: "foldM f (xs @ ys) s = (case foldM f xs s of Inl e \<Rightarrow> Inl e | Inr s' \<Rightarrow> foldM f ys s')"
  by (induction xs arbitrary: s) (auto split: sum.splits)

lemma tdim_rect: "rect n m xs \<Longrightarrow> 0 < n \<Longrightarrow> tdim xs = m"
  by (cases xs) (auto simp: rect_def tdim_def)

lemma rect_swap_axes: "\<forall>r\<in>set xs. length r = n \<Longrightarrow> rect n (length xs) (swap_axes n xs)"
  by (auto simp: rect_def swap_axes_def)

lemma length_swap_axes: "length (swap_axes n xs) = n"
  by (simp add: swap_axes_def)

lemma map_of_store: "map_of (store l v es) l' = (if l' = l then Some v else map_of es l')"
  by (induction es) auto

lemma keys_store: "fst ` set (store l v es) = insert l (fst ` set es)"
proof (induction es)
  case Nil then show ?case by simp
next
  case (Cons e es)
  obtain a b where e: "e = (a, b)" by (cases e)
  show ?case
  proof (cases "a = l")
    case True then show ?thesis by (auto simp: e)
  next
    case False
    have "fst ` set (store l v (e # es)) = insert a (fst ` set (store l v es))"
      using False by (simp add: e)
    then show ?thesis using Cons.IH by (auto simp: e)
  qed
qed

lemma distinct_store: "distinct (map fst es) \<Longrightarrow> distinct (map fst (store l v es))"
proof (induction es)
  case Nil then show ?case by simp
next
  case (Cons e es)
  obtain a b where e: "e = (a, b)" by (cases e)
  show ?case
  proof (cases "a = l")
    case True then show ?thesis using Cons.prems by (simp add: e)
  next
    case False
    have "a \<notin> fst ` set (store l v es)" using False Cons.prems by (simp add: keys_store e)
    then show ?thesis using False Cons by (simp add: e)
  qed
qed

lemma attention_output_Inr:
  assumes "attention_output M lid input am klen k v = Inr out"
  shows "rect (length input) (tdim input) out \<and> rect (length input) klen k \<and> rect (length input) klen v"
  using assms by (auto simp: attention_output_def Let_def rect_def split: if_splits)

lemma cat_time_Inr: "cat_time a b = Inr c \<Longrightarrow> length a = length b \<and> c = map2 (@) a b"
  by (auto simp: cat_time_def split: if_splits)

lemma self_attention_Inr:
  assumes "self_attention M i input am True (Some c) = Inr (out, c')"
  shows "rect (length input) (tdim input) out \<and>
    (\<exists>k v. c' = Some (c\<lparr>c_layers := store (self_id M i) (k, v) (c_layers c)\<rparr>) \<and>
       rect (length input) (c_slen c + tdim input) k \<and> rect (length input) (c_slen c + tdim input) v)"
  using assms
  by (auto simp: self_attention_def Let_def ebind_Inr_iff split: option.splits prod.splits if_splits
      dest!: attention_output_Inr)

lemma encoder_attention_Inr:
  assumes "encoder_attention M i input am kv True (Some c) = Inr (out, c')"
  shows "rect (length input) (tdim input) out \<and>
    (\<exists>k v. c' = Some (c\<lparr>c_layers := store (enc_id M i) (k, v) (c_layers c)\<rparr>) \<and>
       rect (length input) (tdim kv) k \<and> rect (length input) (tdim kv) v)"
  using assms
  by (auto simp: encoder_attention_def Let_def ebind_Inr_iff split: option.splits prod.splits if_splits
      dest!: attention_output_Inr)

lemma rect_map2: "rect n m xs \<Longrightarrow> rect n m ys \<Longrightarrow> rect n m (map2 (map2 f) xs ys)"
  by (auto simp: rect_def set_zip)

lemma rect_map: "rect n m xs \<Longrightarrow> rect n m (map (map f) xs)"
  by (auto simp: rect_def)

lemma ids_distinct_same: "self_id M i \<noteq> enc_id M i"
  by (simp add: self_id_def enc_id_def)

lemma self_id_inj: "self_id M i = self_id M j \<longleftrightarrow> i = j"
  by (simp add: self_id_def)

lemma enc_id_inj: "enc_id M i = enc_id M j \<longleftrightarrow> i = j"
  by (simp add: enc_id_def)

lemma ids_distinct_dec: "is_decoder M \<Longrightarrow> self_id M i \<noteq> enc_id M j"
  by (simp add: self_id_def enc_id_def) presburger

lemma layer_Inr:
  assumes r: "layer M vmask am src True i (tensor, Some c) = Inr (tensor', c')"
    and t: "rect bs q tensor" and m: "rect bs q vmask" and bs: "0 < bs"
  shows "rect bs q tensor' \<and>
    (\<exists>c''. c' = Some c'' \<and> c_slen c'' = c_slen c \<and>
       cached c'' (self_id M i) bs (c_slen c + q) \<and>
       (\<forall>se sm. src = Some (se, sm) \<longrightarrow> cached c'' (enc_id M i) bs (tdim se)) \<and>
       (\<forall>lid. lid \<noteq> self_id M i \<and> (src = None \<or> lid \<noteq> enc_id M i) \<longrightarrow>
          map_of (c_layers c'') lid = map_of (c_layers c) lid) \<and>
       fst ` set (c_layers c'') =
         fst ` set (c_layers c) \<union> {self_id M i} \<union> (if src = None then {} else {enc_id M i}) \<and>
       (distinct (map fst (c_layers c)) \<longrightarrow> distinct (map fst (c_layers c''))))"
proof -
  from r obtain attn cache1 where sa: "self_attention M i tensor am True (Some c) = Inr (attn, cache1)"
    by (auto simp: layer_def ebind_Inr_iff)
  have lt: "length tensor = bs" "tdim tensor = q" using t bs by (auto simp: rect_def tdim_rect)
  from self_attention_Inr[OF sa] lt obtain k v where
    attn: "rect bs q attn" and c1: "cache1 = Some (c\<lparr>c_layers := store (self_id M i) (k, v) (c_layers c)\<rparr>)"
    and kv: "rect bs (c_slen c + q) k" "rect bs (c_slen c + q) v" by auto
  define c1' where "c1' = c\<lparr>c_layers := store (self_id M i) (k, v) (c_layers c)\<rparr>"
  define tensor1 where "tensor1 = map2 (map2 (norm1 M i)) tensor attn"
  have t1: "rect bs q tensor1" unfolding tensor1_def using t attn by (rule rect_map2)
  show ?thesis
  proof (cases src)
    case None
    with r sa c1 have res: "tensor' = map2 (map2 (mask_mul M)) vmask (map (map (ffn M i)) tensor1)"
      "c' = Some c1'"
      by (auto simp: layer_def ebind_def tensor1_def c1'_def Let_def)
    have "rect bs q tensor'" unfolding res using m t1 by (intro rect_map2 rect_map)
    moreover have "cached c1' (self_id M i) bs (c_slen c + q)"
      using kv by (simp add: cached_def c1'_def map_of_store)
    moreover have "distinct (map fst (c_layers c)) \<longrightarrow> distinct (map fst (c_layers c1'))"
      by (simp add: c1'_def distinct_store)
    moreover have "c_slen c1' = c_slen c" by (simp add: c1'_def)
    moreover have "\<forall>lid. lid \<noteq> self_id M i \<longrightarrow> map_of (c_layers c1') lid = map_of (c_layers c) lid"
      by (simp add: c1'_def map_of_store)
    moreover have "fst ` set (c_layers c1') = fst ` set (c_layers c) \<union> {self_id M i}"
      by (simp add: c1'_def keys_store)
    ultimately show ?thesis using res None by simp
  next
    case (Some sp)
    obtain se sm where sp: "sp = (se, sm)" by (cases sp)
    from r sa c1 Some sp obtain attn2 cache2 where
      ea: "encoder_attention M i tensor1 (Mask2 sm) se True (Some c1') = Inr (attn2, cache2)"
      and res: "tensor' = map2 (map2 (mask_mul M)) vmask (map (map (ffn M i)) (map2 (map2 (norm15 M i)) tensor1 attn2))"
        "c' = cache2"
      by (auto simp: layer_def ebind_Inr_iff tensor1_def c1'_def Let_def)
    have lt1: "length tensor1 = bs" "tdim tensor1 = q" using t1 bs by (auto simp: rect_def tdim_rect)
    from encoder_attention_Inr[OF ea] lt1 obtain k2 v2 where
      attn2: "rect bs q attn2"
      and c2: "cache2 = Some (c1'\<lparr>c_layers := store (enc_id M i) (k2, v2) (c_layers c1')\<rparr>)"
      and kv2: "rect bs (tdim se) k2" "rect bs (tdim se) v2" by auto
    define c2' where "c2' = c1'\<lparr>c_layers := store (enc_id M i) (k2, v2) (c_layers c1')\<rparr>"
    have "rect bs q tensor'" unfolding res using m t1 attn2 by (intro rect_map2 rect_map)
    moreover have "cached c2' (self_id M i) bs (c_slen c + q)"
      using kv ids_distinct_same[of M i] by (simp add: cached_def c2'_def c1'_def map_of_store)
    moreover have "cached c2' (enc_id M i) bs (tdim se)"
      using kv2 by (simp add: cached_def c2'_def map_of_store)
    moreover have "distinct (map fst (c_layers c)) \<longrightarrow> distinct (map fst (c_layers c2'))"
      by (simp add: c2'_def c1'_def distinct_store)
    moreover have "c_slen c2' = c_slen c" by (simp add: c2'_def c1'_def)
    moreover have "\<forall>lid. lid \<noteq> self_id M i \<and> lid \<noteq> enc_id M i \<longrightarrow>
        map_of (c_layers c2') lid = map_of (c_layers c) lid"
      by (simp add: c2'_def c1'_def map_of_store)
    moreover have "fst ` set (c_layers c2') = fst ` set (c_layers c) \<union> {self_id M i} \<union> {enc_id M i}"
      by (auto simp: c2'_def c1'_def keys_store)
    moreover have "c' = Some c2'" using res c2 by (simp add: c2'_def)
    ultimately show ?thesis using Some sp by simp
  qed
qed

lemma layers_Inr:
  assumes "foldM (layer M vmask am src True) [0..<n] (tensor, Some c) = Inr (tensor', c')"
    and "rect bs q tensor" and "rect bs q vmask" and "0 < bs" and "src \<noteq> None \<longrightarrow> is_decoder M"
  shows "rect bs q tensor' \<and>
    (\<exists>c''. c' = Some c'' \<and> c_slen c'' = c_slen c \<and>
       (\<forall>i<n. cached c'' (self_id M i) bs (c_slen c + q)) \<and>
       (\<forall>se sm. src = Some (se, sm) \<longrightarrow> (\<forall>i<n. cached c'' (enc_id M i) bs (tdim se))) \<and>
       fst ` set (c_layers c'') =
         fst ` set (c_layers c) \<union> self_id M ` {..<n} \<union> (if src = None then {} else enc_id M ` {..<n}) \<and>
       (distinct (map fst (c_layers c)) \<longrightarrow> distinct (map fst (c_layers c''))))"
  using assms(1)
proof (induction n arbitrary: tensor' c')
  case 0
  then show ?case using assms(2) by auto
next
  case (Suc n)
  from Suc.prems obtain t1 c1 where
    f: "foldM (layer M vmask am src True) [0..<n] (tensor, Some c) = Inr (t1, c1)"
    and l: "layer M vmask am src True n (t1, c1) = Inr (tensor', c')"
    by (auto simp: foldM_append split: sum.splits)
  from Suc.IH[OF f] obtain c1' where
    t1: "rect bs q t1" and c1: "c1 = Some c1'" "c_slen c1' = c_slen c"
    and s1: "\<forall>i<n. cached c1' (self_id M i) bs (c_slen c + q)"
    and e1: "\<forall>se sm. src = Some (se, sm) \<longrightarrow> (\<forall>i<n. cached c1' (enc_id M i) bs (tdim se))"
    and k1: "fst ` set (c_layers c1') =
         fst ` set (c_layers c) \<union> self_id M ` {..<n} \<union> (if src = None then {} else enc_id M ` {..<n})"
    and d1: "distinct (map fst (c_layers c)) \<longrightarrow> distinct (map fst (c_layers c1'))"
    by auto
  from layer_Inr[OF l[unfolded c1] t1 assms(3,4)] obtain c2 where
    t2: "rect bs q tensor'" and c2: "c' = Some c2" "c_slen c2 = c_slen c1'"
    and s2: "cached c2 (self_id M n) bs (c_slen c1' + q)"
    and e2: "\<forall>se sm. src = Some (se, sm) \<longrightarrow> cached c2 (enc_id M n) bs (tdim se)"
    and o2: "\<forall>lid. lid \<noteq> self_id M n \<and> (src = None \<or> lid \<noteq> enc_id M n) \<longrightarrow>
          map_of (c_layers c2) lid = map_of (c_layers c1') lid"
    and k2: "fst ` set (c_layers c2) =
         fst ` set (c_layers c1') \<union> {self_id M n} \<union> (if src = None then {} else {enc_id M n})"
    and d2: "distinct (map fst (c_layers c1')) \<longrightarrow> distinct (map fst (c_layers c2))"
    by auto
  have dec: "src \<noteq> None \<Longrightarrow> is_decoder M" using assms(5) by simp
  have a: "\<forall>i<Suc n. cached c2 (self_id M i) bs (c_slen c + q)"
  proof (intro allI impI)
    fix i assume "i < Suc n"
    show "cached c2 (self_id M i) bs (c_slen c + q)"
    proof (cases "i = n")
      case True then show ?thesis using s2 c1 by simp
    next
      case False
      then have i: "i < n" using \<open>i < Suc n\<close> by simp
      have "self_id M i \<noteq> self_id M n" using False by (simp add: self_id_inj)
      moreover have "src = None \<or> self_id M i \<noteq> enc_id M n" using dec ids_distinct_dec by blast
      ultimately have "map_of (c_layers c2) (self_id M i) = map_of (c_layers c1') (self_id M i)"
        using o2 by blast
      then show ?thesis using s1 i by (simp add: cached_def)
    qed
  qed
  have b: "\<forall>se sm. src = Some (se, sm) \<longrightarrow> (\<forall>i<Suc n. cached c2 (enc_id M i) bs (tdim se))"
  proof (intro allI impI)
    fix se sm i assume src: "src = Some (se, sm)" and "i < Suc n"
    show "cached c2 (enc_id M i) bs (tdim se)"
    proof (cases "i = n")
      case True then show ?thesis using e2 src by simp
    next
      case False
      then have i: "i < n" using \<open>i < Suc n\<close> by simp
      have "enc_id M i \<noteq> enc_id M n" using False by (simp add: enc_id_inj)
      moreover have "enc_id M i \<noteq> self_id M n" using dec src ids_distinct_dec[of M n i] by auto
      ultimately have "map_of (c_layers c2) (enc_id M i) = map_of (c_layers c1') (enc_id M i)"
        using o2 by blast
      then show ?thesis using e1 src i by (simp add: cached_def)
    qed
  qed
  have k: "fst ` set (c_layers c2) =
         fst ` set (c_layers c) \<union> self_id M ` {..<Suc n} \<union> (if src = None then {} else enc_id M ` {..<Suc n})"
    unfolding k2 k1 by (auto simp: lessThan_Suc)
  have d: "distinct (map fst (c_layers c)) \<longrightarrow> distinct (map fst (c_layers c2))"
    using d1 d2 by blast
  have sl: "c_slen c2 = c_slen c" using c2 c1 by simp
  show ?case using t2 c2(1) sl a b k d by blast
qed

lemma length_new_steps:
  "length r = slen \<Longrightarrow> length (new_steps True (int slen - int cslen) r) = new_len slen cslen"
  by (auto simp: new_steps_def slice_tail_def new_len_def)

lemma get_masks_Inr:
  "get_masks slen lengths causal = Inr (vmask, am) \<Longrightarrow> lengths \<noteq> [] \<and> rect (length lengths) slen vmask"
  by (auto simp: get_masks_def Let_def rect_def split: if_splits)

lemma fwd_unfold:
  assumes "fwd M x lengths causal src positions langs True cache = Inr (t, cache')"
  shows "\<exists>c vmask am tensor0 tensor c1 posT.
     cache = Some c \<and> (\<forall>r\<in>set x. length r = length lengths) \<and>
     (src \<noteq> None \<longrightarrow> is_decoder M) \<and>
     get_masks (length x) lengths causal = Inr (vmask, am) \<and>
     embed_tokens M (map (new_steps True (int (length x) - int (c_slen c))) (swap_axes (length lengths) x))
       posT
       (map_option (\<lambda>l. map (new_steps True (int (length x) - int (c_slen c))) (swap_axes (length lengths) l)) langs)
       (map (new_steps True (int (length x) - int (c_slen c))) vmask) = Inr tensor0 \<and>
     foldM (layer M (map (new_steps True (int (length x) - int (c_slen c))) vmask)
              (slice_mask True (int (length x) - int (c_slen c)) am) (with_src_mask src) True)
        [0..<n_layers M] (tensor0, Some c) = Inr (tensor, c1) \<and>
     t = swap_axes (tdim tensor) tensor \<and>
     cache' = map_option (\<lambda>c. c\<lparr>c_slen := c_slen c + tdim tensor\<rparr>) c1"
proof -
  from assms obtain c where c: "cache = Some c"
    by (cases cache) (auto simp: fwd_def Let_def)
  from assms have chk: "\<forall>r\<in>set x. length r = length lengths" "src \<noteq> None \<longrightarrow> is_decoder M"
    by (auto simp: fwd_def Let_def split: if_splits)
  from assms chk c obtain vmask am where gm: "get_masks (length x) lengths causal = Inr (vmask, am)"
    by (auto simp: fwd_def Let_def ebind_Inr_iff split: if_splits)
  show ?thesis
    using assms chk c gm
    by (auto simp: fwd_def Let_def ebind_Inr_iff split: if_splits prod.splits)
qed

lemma embed_tokens_Inr:
  assumes "embed_tokens M x1 pos1 lang1 mask1 = Inr t0" and "rect n m x1"
  shows "rect n m t0"
proof -
  from mapM_Inr[OF assms(1)[unfolded embed_tokens_def]]
  have l: "length t0 = length x1"
    and r: "\<forall>b<length x1. mapM (\<lambda>t. ebind (embed_at M (x1 ! b ! t) (pos1 ! b ! t) (map_option (\<lambda>l. l ! b ! t) lang1))
               (\<lambda>h. Inr (mask_mul M (mask1 ! b ! t) h))) [0..<length (x1 ! b)] = Inr (t0 ! b)"
    by auto
  have "\<forall>b<length x1. length (t0 ! b) = length (x1 ! b)"
  proof (intro allI impI)
    fix b assume "b < length x1"
    with r mapM_Inr show "length (t0 ! b) = length (x1 ! b)" by fastforce
  qed
  moreover have "\<forall>b<length x1. length (x1 ! b) = m" using assms(2) by (simp add: rect_def)
  ultimately show ?thesis using l assms(2) by (auto simp: rect_def in_set_conv_nth)
qed

lemma rect_new_steps:
  "rect n slen xs \<Longrightarrow> rect n (new_len slen cslen) (map (new_steps True (int slen - int cslen)) xs)"
  by (auto simp: rect_def length_new_steps)

lemma with_src_mask_Some:
  "with_src_mask src = Some (se, sm) \<Longrightarrow> \<exists>sl. src = Some (se, sl)"
  by (cases src) (auto simp: with_src_mask_def)

lemma with_src_mask_None: "with_src_mask src = None \<longleftrightarrow> src = None"
  by (cases src) (auto simp: with_src_mask_def)

lemma fwd_Inr:
  assumes "fwd M x lengths causal src positions langs True cache = Inr (t, cache')"
  shows "\<exists>c c'. cache = Some c \<and> cache' = Some c' \<and> lengths \<noteq> [] \<and>
     rect (new_len (length x) (c_slen c)) (length lengths) t \<and>
     c_slen c' = c_slen c + new_len (length x) (c_slen c) \<and>
     (\<forall>i<n_layers M. cached c' (self_id M i) (length lengths) (c_slen c')) \<and>
     (\<forall>se sl. src = Some (se, sl) \<longrightarrow>
        (\<forall>i<n_layers M. cached c' (enc_id M i) (length lengths) (tdim se))) \<and>
     fst ` set (c_layers c') =
       fst ` set (c_layers c) \<union> self_id M ` {..<n_layers M} \<union>
       (if src = None then {} else enc_id M ` {..<n_layers M}) \<and>
     (distinct (map fst (c_layers c)) \<longrightarrow> distinct (map fst (c_layers c')))"
proof -
  from fwd_unfold[OF assms] obtain c vmask am tensor0 tensor c1 posT where
    c: "cache = Some c" and x: "\<forall>r\<in>set x. length r = length lengths"
    and dec: "src \<noteq> None \<longrightarrow> is_decoder M"
    and gm: "get_masks (length x) lengths causal = Inr (vmask, am)"
    and em: "embed_tokens M (map (new_steps True (int (length x) - int (c_slen c))) (swap_axes (length lengths) x))
       posT
       (map_option (\<lambda>l. map (new_steps True (int (length x) - int (c_slen c))) (swap_axes (length lengths) l)) langs)
       (map (new_steps True (int (length x) - int (c_slen c))) vmask) = Inr tensor0"
    and fl: "foldM (layer M (map (new_steps True (int (length x) - int (c_slen c))) vmask)
              (slice_mask True (int (length x) - int (c_slen c)) am) (with_src_mask src) True)
        [0..<n_layers M] (tensor0, Some c) = Inr (tensor, c1)"
    and t: "t = swap_axes (tdim tensor) tensor"
    and c': "cache' = map_option (\<lambda>c. c\<lparr>c_slen := c_slen c + tdim tensor\<rparr>) c1"
    by blast
  let ?bs = "length lengths" and ?q = "new_len (length x) (c_slen c)"
  from get_masks_Inr[OF gm] have ne: "lengths \<noteq> []" and vm: "rect ?bs (length x) vmask" by auto
  then have bs: "0 < ?bs" by simp
  have "rect ?bs (length x) (swap_axes ?bs x)" using x by (rule rect_swap_axes)
  then have "rect ?bs ?q (map (new_steps True (int (length x) - int (c_slen c))) (swap_axes ?bs x))"
    by (rule rect_new_steps)
  with em have t0: "rect ?bs ?q tensor0" by (rule embed_tokens_Inr)
  have m1: "rect ?bs ?q (map (new_steps True (int (length x) - int (c_slen c))) vmask)"
    using vm by (rule rect_new_steps)
  have dec': "with_src_mask src \<noteq> None \<longrightarrow> is_decoder M" using dec by (simp add: with_src_mask_None)
  from layers_Inr[OF fl t0 m1 bs dec'] obtain c2 where
    tr: "rect ?bs ?q tensor" and c1: "c1 = Some c2" and sl: "c_slen c2 = c_slen c"
    and s: "\<forall>i<n_layers M. cached c2 (self_id M i) ?bs (c_slen c + ?q)"
    and e: "\<forall>se sm. with_src_mask src = Some (se, sm) \<longrightarrow> (\<forall>i<n_layers M. cached c2 (enc_id M i) ?bs (tdim se))"
    and k: "fst ` set (c_layers c2) = fst ` set (c_layers c) \<union> self_id M ` {..<n_layers M} \<union>
        (if with_src_mask src = None then {} else enc_id M ` {..<n_layers M})"
    and d: "distinct (map fst (c_layers c)) \<longrightarrow> distinct (map fst (c_layers c2))"
    by (elim conjE exE) (rule that)
  have td: "tdim tensor = ?q" using tr bs by (rule tdim_rect)
  define c3 where "c3 = c2\<lparr>c_slen := c_slen c2 + ?q\<rparr>"
  have c3: "cache' = Some c3" using c' c1 td by (simp add: c3_def)
  have r: "rect ?q ?bs t" unfolding t td using tr rect_swap_axes[of tensor ?q] by (simp add: rect_def)
  have s3: "\<forall>i<n_layers M. cached c3 (self_id M i) ?bs (c_slen c3)"
    using s sl by (simp add: cached_def c3_def)
  have e3: "\<forall>se sl. src = Some (se, sl) \<longrightarrow> (\<forall>i<n_layers M. cached c3 (enc_id M i) ?bs (tdim se))"
    using e by (auto simp: cached_def c3_def with_src_mask_def)
  have k3: "fst ` set (c_layers c3) = fst ` set (c_layers c) \<union> self_id M ` {..<n_layers M} \<union>
       (if src = None then {} else enc_id M ` {..<n_layers M})"
    using k by (simp add: c3_def with_src_mask_None)
  have d3: "distinct (map fst (c_layers c)) \<longrightarrow> distinct (map fst (c_layers c3))"
    using d by (simp add: c3_def)
  have sl3: "c_slen c3 = c_slen c + ?q" using sl by (simp add: c3_def)
  show ?thesis using c c3 ne r s3 e3 k3 sl3 d3 by blast
qed

text \<open>Unfolding a concrete call of \<^verbatim>\<open>fwd\<close> on \<open>toy\<close>.\<close>

lemmas fwd_eval = fwd_def toy_def get_masks_def ebind_def swap_axes_def new_steps_def slice_tail_def
  embed_tokens_def embed_at_def N_MAX_POSITIONS_def slice_mask_def with_src_mask_def layer_def
  self_attention_def encoder_attention_def attention_output_def empty_cache_def cat_time_def
  tdim_def self_id_def enc_id_def Let_def









subsection \<open>Greedy and sampling decoder\<close>

lemma select_Nil [simp]: "select [] xs = []" "select m [] = []"
  by (simp_all add: select_def)

lemma select_Cons [simp]: "select (a # m) (x # xs) = (if a then x # select m xs else select m xs)"
  by (simp add: select_def)

lemma rank_0 [simp]: "rank m 0 = 0"
  by (simp add: rank_def)

lemma rank_Suc [simp]: "rank (a # m) (Suc b) = (if a then Suc (rank m b) else rank m b)"
  by (simp add: rank_def)

lemma length_select: "length m = length xs \<Longrightarrow> length (select m xs) = length (filter id m)"
  by (induction m xs rule: list_induct2) auto

lemma rank_less: "b < length m \<Longrightarrow> m ! b \<Longrightarrow> rank m b < length (filter id m)"
proof (induction m arbitrary: b)
  case Nil then show ?case by simp
next
  case (Cons a m)
  then show ?case by (cases b) auto
qed

lemma nth_select:
  "length m = length xs \<Longrightarrow> b < length m \<Longrightarrow> m ! b \<Longrightarrow> select m xs ! rank m b = xs ! b"
proof (induction m xs arbitrary: b rule: list_induct2)
  case Nil then show ?case by simp
next
  case (Cons a m x xs)
  then show ?case by (cases b) auto
qed

lemma length_scatter [simp]: "length (scatter m vs xs) = length xs"
  by (induction m vs xs rule: scatter.induct) auto

lemma nth_scatter:
  "length m = length xs \<Longrightarrow> length vs = length (filter id m) \<Longrightarrow> b < length xs \<Longrightarrow>
   scatter m vs xs ! b = (if m ! b then vs ! rank m b else xs ! b)"
proof (induction m xs arbitrary: vs b rule: list_induct2)
  case Nil then show ?case by simp
next
  case (Cons a m x xs)
  show ?case
  proof (cases a)
    case True
    with Cons.prems obtain v vs' where vs: "vs = v # vs'" by (cases vs) auto
    show ?thesis
    proof (cases b)
      case 0 then show ?thesis using True vs by simp
    next
      case (Suc b')
      then show ?thesis using True vs Cons.prems Cons.IH[of vs' b'] by simp
    qed
  next
    case False
    show ?thesis
    proof (cases b)
      case 0 then show ?thesis using False by simp
    next
      case (Suc b')
      then show ?thesis using False Cons.prems Cons.IH[of vs b'] by simp
    qed
  qed
qed

lemma select_next_words_length:
  "select_next_words T rng step scores = Inr ws \<Longrightarrow> length ws = length scores"
  by (cases T) (auto simp: select_next_words_def ebind_def dest!: mapM_Inr split: if_splits)




lemma column_update: "column (G[c := r]) b = (column G b)[c := r ! b]"
  by (simp add: column_def map_update)

lemma length_column [simp]: "length (column G b) = length G"
  by (simp add: column_def)

lemma generate_step_Inr:
  assumes "generate_step M src_enc src_len tgt max_lengths gml T rng st = Inr st'"
  shows "\<exists>ws cache2.
     length ws = length (filter id (map (\<lambda>u. u \<noteq> 0) (unfinished_sents st))) \<and>
     length max_lengths = length src_len \<and>
     st' = st\<lparr>generated := (generated st)[cur_len st :=
                  map (\<lambda>(w, (ml, u)). if ml = cur_len st + 1 \<and> u = 1 then eos_index M else w)
                    (zip (scatter (map (\<lambda>u. u \<noteq> 0) (unfinished_sents st)) ws (generated st ! cur_len st))
                       (zip max_lengths (unfinished_sents st)))],
              gen_len := map2 (+) (gen_len st) (unfinished_sents st),
              unfinished_sents := scatter (map (\<lambda>u. u \<noteq> 0) (unfinished_sents st))
                  (map (\<lambda>(u, (w, ml)). u * (if w \<noteq> eos_index M then 1 else 0)
                                  * (if ml \<noteq> cur_len st + 1 then 1 else 0))
                     (zip (select (map (\<lambda>u. u \<noteq> 0) (unfinished_sents st)) (unfinished_sents st))
                        (zip ws (select (map (\<lambda>u. u \<noteq> 0) (unfinished_sents st)) max_lengths))))
                  (unfinished_sents st),
              gcache := cache2,
              previous_unfinished_mask := map (\<lambda>u. u \<noteq> 0) (unfinished_sents st),
              cur_len := cur_len st + 1\<rparr>"
proof -
  let ?A = "map (\<lambda>u. u \<noteq> 0) (unfinished_sents st)"
  from assms obtain cache1 where "prepare_cache st = Inr cache1"
    by (auto simp: generate_step_def Let_def ebind_Inr_iff)
  with assms obtain tensor cache2 where
    f: "fwd M (map (select ?A) (take (cur_len st) (generated st))) (select ?A (gen_len st)) True
          (Some (select ?A src_enc, select ?A src_len))
          (Some (map (\<lambda>t. replicate (length (filter id ?A)) t) [0..<cur_len st]))
          (Some (replicate (cur_len st) (replicate (length (filter id ?A)) tgt)))
          True (Some cache1) = Inr (tensor, cache2)"
    by (auto simp: generate_step_def Let_def ebind_Inr_iff)
  with assms \<open>prepare_cache st = Inr cache1\<close> have
    lt: "length (last tensor) = length (filter id ?A)"
    by (auto simp: generate_step_def Let_def ebind_def split: if_splits)
  from assms \<open>prepare_cache st = Inr cache1\<close> f obtain ws where
    ws: "select_next_words T rng (cur_len st) (map (pred_scores M) (last tensor)) = Inr ws"
    by (auto simp: generate_step_def Let_def ebind_def split: if_splits sum.splits)
  have lw: "length ws = length (filter id ?A)"
    using select_next_words_length[OF ws] lt by simp
  show ?thesis
    using assms \<open>prepare_cache st = Inr cache1\<close> f ws lw
    by (auto simp: generate_step_def Let_def ebind_def split: if_splits)
qed

lemma gen_step_ok:
  assumes ok: "gen_ok M (length src_len) gml st" and lt: "cur_len st < gml"
    and step: "generate_step M src_enc src_len tgt max_lengths gml T rng st = Inr st'"
  shows "gen_ok M (length src_len) gml st'"
proof -
  let ?bs = "length src_len" and ?c = "cur_len st" and ?G = "generated st"
    and ?U = "unfinished_sents st" and ?eos = "eos_index M" and ?pad = "pad_index M"
  let ?A = "map (\<lambda>u. u \<noteq> 0) ?U"
  from generate_step_Inr[OF step] obtain ws cache2 where
    lw: "length ws = length (filter id ?A)" and lm: "length max_lengths = ?bs"
    and st': "st' = st\<lparr>generated := ?G[?c :=
                  map (\<lambda>(w, (ml, u)). if ml = ?c + 1 \<and> u = 1 then ?eos else w)
                    (zip (scatter ?A ws (?G ! ?c)) (zip max_lengths ?U))],
              gen_len := map2 (+) (gen_len st) ?U,
              unfinished_sents := scatter ?A
                  (map (\<lambda>(u, (w, ml)). u * (if w \<noteq> ?eos then 1 else 0)
                                  * (if ml \<noteq> ?c + 1 then 1 else 0))
                     (zip (select ?A ?U) (zip ws (select ?A max_lengths))))
                  ?U,
              gcache := cache2,
              previous_unfinished_mask := ?A,
              cur_len := ?c + 1\<rparr>"
    by blast
  define row1 where "row1 = scatter ?A ws (?G ! ?c)"
  define row2 where "row2 = map (\<lambda>(w, (ml, u)). if ml = ?c + 1 \<and> u = 1 then ?eos else w)
                    (zip row1 (zip max_lengths ?U))"
  define U' where "U' = scatter ?A
                  (map (\<lambda>(u, (w, ml)). u * (if w \<noteq> ?eos then 1 else 0)
                                  * (if ml \<noteq> ?c + 1 then 1 else 0))
                     (zip (select ?A ?U) (zip ws (select ?A max_lengths))))
                  ?U"
  from ok have lG: "length ?G = gml" and rows: "\<forall>r\<in>set ?G. length r = ?bs"
    and lU: "length ?U = ?bs" and lL: "length (gen_len st) = ?bs" and c1: "1 \<le> ?c"
    and cols: "\<forall>b<?bs.
        (?U ! b = 1 \<and> gen_len st ! b = ?c \<and> seq_open ?eos ?pad ?c (column ?G b)) \<or>
        (?U ! b = 0 \<and> (\<exists>e<?c. gen_len st ! b = e + 1 \<and> seq_closed ?eos ?pad e (column ?G b)))"
    by (auto simp: gen_ok_def)
  have lrow: "length (?G ! ?c) = ?bs" using rows lt lG by simp
  have lA: "length ?A = ?bs" using lU by simp
  have lr1: "length row1 = ?bs" by (simp add: row1_def lrow)
  have lr2: "length row2 = ?bs" by (simp add: row2_def lr1 lm lU)
  have lU': "length U' = ?bs" by (simp add: U'_def lU)
  have lsel: "length (select ?A ?U) = length (filter id ?A)" "length (select ?A max_lengths) = length (filter id ?A)"
    using lA lU lm by (simp_all add: length_select)
  have r1: "\<And>b. b < ?bs \<Longrightarrow> row1 ! b = (if ?A ! b then ws ! rank ?A b else ?G ! ?c ! b)"
    unfolding row1_def using lA lrow lw by (intro nth_scatter) simp_all
  have r2: "\<And>b. b < ?bs \<Longrightarrow> row2 ! b = (if max_lengths ! b = ?c + 1 \<and> ?U ! b = 1 then ?eos else row1 ! b)"
    by (simp add: row2_def lr1 lm lU)
  have u': "\<And>b. b < ?bs \<Longrightarrow> ?U ! b \<noteq> 0 \<Longrightarrow>
      U' ! b = ?U ! b * (if ws ! rank ?A b \<noteq> ?eos then 1 else 0) * (if max_lengths ! b \<noteq> ?c + 1 then 1 else 0)"
  proof -
    fix b assume b: "b < ?bs" and nz: "?U ! b \<noteq> 0"
    have Ab: "?A ! b" using b nz lU by simp
    have rk: "rank ?A b < length (filter id ?A)" using b lA Ab by (intro rank_less) simp_all
    have "U' ! b = map (\<lambda>(u, (w, ml)). u * (if w \<noteq> ?eos then 1 else 0)
                                  * (if ml \<noteq> ?c + 1 then 1 else 0))
                     (zip (select ?A ?U) (zip ws (select ?A max_lengths))) ! rank ?A b"
      unfolding U'_def using lA lU lw lsel b Ab by (subst nth_scatter) simp_all
    also have "\<dots> = select ?A ?U ! rank ?A b * (if ws ! rank ?A b \<noteq> ?eos then 1 else 0)
        * (if select ?A max_lengths ! rank ?A b \<noteq> ?c + 1 then 1 else 0)"
      using rk lsel lw by simp
    also have "select ?A ?U ! rank ?A b = ?U ! b" using lA lU b Ab by (intro nth_select) simp_all
    also have "select ?A max_lengths ! rank ?A b = max_lengths ! b"
      using lA lm b Ab by (intro nth_select) simp_all
    finally show "U' ! b = ?U ! b * (if ws ! rank ?A b \<noteq> ?eos then 1 else 0) * (if max_lengths ! b \<noteq> ?c + 1 then 1 else 0)" .
  qed
  have u0: "\<And>b. b < ?bs \<Longrightarrow> ?U ! b = 0 \<Longrightarrow> U' ! b = 0"
    unfolding U'_def using lA lU lw lsel by (subst nth_scatter) simp_all
  have G': "generated st' = ?G[?c := row2]" "unfinished_sents st' = U'"
    "gen_len st' = map2 (+) (gen_len st) ?U" "cur_len st' = ?c + 1"
    by (simp_all add: st' row2_def row1_def U'_def)
  have colb: "\<And>b. column (generated st') b = (column ?G b)[?c := row2 ! b]"
    by (simp add: G' column_update)
  have gl: "\<And>b. b < ?bs \<Longrightarrow> gen_len st' ! b = gen_len st ! b + ?U ! b"
    by (simp add: G' lL lU)
  have main: "\<forall>b<?bs.
        (U' ! b = 1 \<and> gen_len st' ! b = ?c + 1 \<and> seq_open ?eos ?pad (?c + 1) (column (generated st') b)) \<or>
        (U' ! b = 0 \<and> (\<exists>e<?c + 1. gen_len st' ! b = e + 1 \<and> seq_closed ?eos ?pad e (column (generated st') b)))"
  proof (intro allI impI)
    fix b assume b: "b < ?bs"
    from cols b consider
      (opn) "?U ! b = 1" "gen_len st ! b = ?c" "seq_open ?eos ?pad ?c (column ?G b)"
      | (cls) e where "?U ! b = 0" "e < ?c" "gen_len st ! b = e + 1" "seq_closed ?eos ?pad e (column ?G b)"
      by blast
    then show "(U' ! b = 1 \<and> gen_len st' ! b = ?c + 1 \<and> seq_open ?eos ?pad (?c + 1) (column (generated st') b)) \<or>
        (U' ! b = 0 \<and> (\<exists>e<?c + 1. gen_len st' ! b = e + 1 \<and> seq_closed ?eos ?pad e (column (generated st') b)))"
    proof cases
      case opn
      have Ab: "?A ! b" using b opn(1) lU by simp
      let ?w = "ws ! rank ?A b"
      have r1b: "row1 ! b = ?w" using r1[OF b] Ab by simp
      have ub: "U' ! b = (if ?w \<noteq> ?eos then 1 else 0) * (if max_lengths ! b \<noteq> ?c + 1 then 1 else 0)"
        using u'[OF b] opn(1) by simp
      have glb: "gen_len st' ! b = ?c + 1" using gl[OF b] opn by simp
      show ?thesis
      proof (cases "?w \<noteq> ?eos \<and> max_lengths ! b \<noteq> ?c + 1")
        case True
        then have "U' ! b = 1" using ub by simp
        moreover have "row2 ! b \<noteq> ?eos" using r2[OF b] r1b True by simp
        then have "seq_open ?eos ?pad (?c + 1) (column (generated st') b)"
          using opn(3) c1 lt lG unfolding colb seq_open_def
          by (auto simp: nth_list_update)
        ultimately show ?thesis using glb by blast
      next
        case False
        then have "U' ! b = 0" using ub by auto
        moreover have "row2 ! b = ?eos" using r2[OF b] r1b False opn(1) by auto
        then have "seq_closed ?eos ?pad ?c (column (generated st') b)"
          using opn(3) c1 lt lG unfolding colb seq_closed_def seq_open_def
          by (auto simp: nth_list_update)
        ultimately show ?thesis using glb by auto
      qed
    next
      case cls
      have Ab: "\<not> ?A ! b" using b cls(1) lU by simp
      have "row2 ! b = ?G ! ?c ! b" using r2[OF b] r1[OF b] Ab cls(1) by simp
      also have "\<dots> = column ?G b ! ?c" using lt lG by (simp add: column_def)
      finally have "column (generated st') b = column ?G b" unfolding colb by simp
      moreover have "U' ! b = 0" using u0[OF b cls(1)] .
      moreover have "gen_len st' ! b = e + 1" using gl[OF b] cls by simp
      ultimately show ?thesis using cls(2,4) by auto
    qed
  qed
  have "\<forall>r\<in>set (generated st'). length r = ?bs"
    using rows lr2 unfolding G' by (auto dest!: set_update_subset_insert[THEN subsetD])
  then show ?thesis
    unfolding gen_ok_def using main lG lU' lL lU lt c1 by (simp add: G')
qed



lemma gen_ok_init:
  assumes "initial_generated M gml bs = Inr g0"
  shows "gen_ok M bs gml \<lparr>generated = g0, gen_len = replicate bs 1,
                   unfinished_sents = replicate bs 1, gcache = c,
                   previous_unfinished_mask = replicate bs True, cur_len = 1\<rparr>"
proof -
  from assms have g: "0 < gml" "g0 = replicate bs (eos_index M) # replicate (gml - 1) (replicate bs (pad_index M))"
    by (auto simp: initial_generated_def split: if_splits)
  have "\<And>b. b < bs \<Longrightarrow> seq_open (eos_index M) (pad_index M) 1 (column g0 b)"
    by (auto simp: seq_open_def column_def g nth_Cons split: nat.splits)
  then show ?thesis using g by (auto simp: gen_ok_def)
qed




text \<open>Unfolding a concrete run of \<^verbatim>\<open>generate\<close>.\<close>

lemmas gen_eval = generate_def generate_step_def prepare_cache_def restrict_cache_def
  max_lengths_of_def initial_generated_def select_def select_next_words_def topk_def
  enumerate_eq_zip eval_nat_numeral generate_loop.simps



subsection \<open>Cache alignment in the greedy decoder\<close>

lemma mapM_all_Inr: "(\<forall>x\<in>set xs. f x = Inr (g x)) \<Longrightarrow> mapM f xs = Inr (map g xs)"
  by (induction xs) auto

lemma count_select_sub:
  "length A = length P \<Longrightarrow> (\<forall>b<length A. A ! b \<longrightarrow> P ! b) \<Longrightarrow>
   length (filter id (select P A)) = length (filter id A)"
proof (induction A P rule: list_induct2)
  case Nil then show ?case by simp
next
  case (Cons a A p P)
  have "\<forall>b<length A. A ! b \<longrightarrow> P ! b" using Cons.prems by fastforce
  moreover have "a \<longrightarrow> p" using Cons.prems by fastforce
  ultimately show ?case using Cons.IH by auto
qed

lemma select_select_nth:
  "length A = length P \<Longrightarrow> length k = length (filter id P) \<Longrightarrow>
   (\<forall>b<length A. A ! b \<longrightarrow> P ! b) \<Longrightarrow> b < length A \<Longrightarrow> A ! b \<Longrightarrow>
   select (select P A) k ! rank A b = k ! rank P b"
proof (induction A P arbitrary: k b rule: list_induct2)
  case Nil then show ?case by simp
next
  case (Cons a A p P)
  have sub: "\<forall>b<length A. A ! b \<longrightarrow> P ! b" using Cons.prems(2) by fastforce
  have ap: "a \<longrightarrow> p" using Cons.prems(2) by fastforce
  show ?case
  proof (cases p)
    case True
    have "length k = Suc (length (filter id P))" using Cons.prems(1) True by (simp add: id_def)
    then obtain x k' where k: "k = x # k'" "length k' = length (filter id P)"
      by (cases k) simp_all
    show ?thesis
    proof (cases b)
      case 0
      then show ?thesis using True k Cons.prems by simp
    next
      case (Suc b')
      have b': "b' < length A" "A ! b'" using Cons.prems(3,4) Suc by simp_all
      have "select (select P A) k' ! rank A b' = k' ! rank P b'"
        by (rule Cons.IH[OF k(2) sub b'])
      then show ?thesis using True k Suc by simp
    qed
  next
    case False
    then have na: "\<not> a" using ap by simp
    show ?thesis
    proof (cases b)
      case 0
      then show ?thesis using na Cons.prems by simp
    next
      case (Suc b')
      have lk: "length k = length (filter id P)" using Cons.prems(1) False by (simp add: id_def)
      have b': "b' < length A" "A ! b'" using Cons.prems(3,4) Suc by simp_all
      have "select (select P A) k ! rank A b' = k ! rank P b'"
        by (rule Cons.IH[OF lk sub b'])
      then show ?thesis using False na Suc by simp
    qed
  qed
qed

lemma length_select_le: "length m = length xs \<Longrightarrow> length (select m xs) = length (filter id m)"
  by (rule length_select)

lemma restrict_cache_ok:
  assumes "\<forall>(lid, (k, v))\<in>set (c_layers c). length k = length rm \<and> length v = length rm"
  shows "restrict_cache rm c =
     Inr (c\<lparr>c_layers := map (\<lambda>(lid, (k, v)). (lid, (select rm k, select rm v))) (c_layers c)\<rparr>)"
proof -
  have "mapM (\<lambda>(lid, (k, v)).
                    if length k \<noteq> length rm \<or> length v \<noteq> length rm
                    then Inl IndexError
                    else Inr (lid, (select rm k, select rm v))) (c_layers c)
        = Inr (map (\<lambda>(lid, (k, v)). (lid, (select rm k, select rm v))) (c_layers c))"
    by (rule mapM_all_Inr) (use assms in auto)
  then show ?thesis by (simp add: restrict_cache_def ebind_def)
qed

lemma map_of_map_entries:
  "map_of (map (\<lambda>(lid, (k, v)). (lid, (f k, f v))) es) lid =
   map_option (\<lambda>(k, v). (f k, f v)) (map_of es lid)"
  by (induction es) auto

lemma map_fst_map_entries:
  "map fst (map (\<lambda>(lid, (k, v)). (lid, (f k, g v))) es) = map fst es"
  by (induction es) auto

lemma prepare_cache_ok:
  assumes ok: "gen_ok M bs gml st" and mk: "masks_ok M bs st"
  defines "A \<equiv> active st"
    and "P \<equiv> previous_unfinished_mask st"
  shows "\<exists>c1. prepare_cache st = Inr c1 \<and> c_slen c1 = c_slen (gcache st) \<and>
     map fst (c_layers c1) = map fst (c_layers (gcache st)) \<and>
     cache_rows c1 (length (filter id A)) \<and>
     (A \<noteq> P \<longrightarrow> c_layers c1 =
        map (\<lambda>(lid, (k, v)). (lid, (select (select P A) k, select (select P A) v))) (c_layers (gcache st))) \<and>
     (\<forall>lid k v. map_of (c_layers (gcache st)) lid = Some (k, v) \<longrightarrow>
        (\<exists>k' v'. map_of (c_layers c1) lid = Some (k', v') \<and>
           (\<forall>b<bs. A ! b \<longrightarrow> k' ! rank A b = k ! rank P b \<and> v' ! rank A b = v ! rank P b)))"
proof -
  let ?c = "gcache st"
  from ok have lU: "length (unfinished_sents st) = bs" by (simp add: gen_ok_def)
  then have lA: "length A = bs" by (simp add: A_def active_def)
  from mk have lP: "length P = bs" and sub0: "\<forall>b<bs. unfinished_sents st ! b \<noteq> 0 \<longrightarrow> P ! b"
    and rows: "cache_rows ?c (length (filter id P))"
    by (simp_all add: masks_ok_def P_def)
  have sub: "\<forall>b<length A. A ! b \<longrightarrow> P ! b" using sub0 lA lU by (simp add: A_def active_def)
  have lAP: "length A = length P" using lA lP by simp
  show ?thesis
  proof (cases "A = P")
    case True
    then have "prepare_cache st = Inr ?c" by (simp add: prepare_cache_def A_def active_def P_def Let_def)
    then show ?thesis using True rows by auto
  next
    case False
    let ?rm = "select P A"
    have lrm: "length ?rm = length (filter id P)" using lAP by (simp add: length_select)
    have crm: "length (filter id ?rm) = length (filter id A)" using lAP sub by (rule count_select_sub)
    have ent: "\<forall>(lid, (k, v))\<in>set (c_layers ?c). length k = length ?rm \<and> length v = length ?rm"
      using rows lrm by (auto simp: cache_rows_def)
    define c1 where "c1 = ?c\<lparr>c_layers := map (\<lambda>(lid, (k, v)). (lid, (select ?rm k, select ?rm v))) (c_layers ?c)\<rparr>"
    have pc: "prepare_cache st = Inr c1"
      using False restrict_cache_ok[OF ent] by (simp add: prepare_cache_def A_def active_def P_def Let_def c1_def)
    have keys: "map fst (c_layers c1) = map fst (c_layers ?c)"
      by (auto simp: c1_def split: prod.splits)
    have cr: "cache_rows c1 (length (filter id A))"
      unfolding cache_rows_def keys
    proof (intro conjI)
      show "distinct (map fst (c_layers ?c))" using rows by (simp add: cache_rows_def)
      show "\<forall>(lid, (k, v))\<in>set (c_layers c1). length k = length (filter id A) \<and> length v = length (filter id A)"
      proof (clarify)
        fix lid k v assume "(lid, (k, v)) \<in> set (c_layers c1)"
        then obtain k0 v0 where in0: "(lid, (k0, v0)) \<in> set (c_layers ?c)"
          and kv: "k = select ?rm k0" "v = select ?rm v0"
          by (auto simp: c1_def)
        from ent in0 have "length k0 = length ?rm" "length v0 = length ?rm" by auto
        then show "length k = length (filter id A) \<and> length v = length (filter id A)"
          using kv crm by (simp add: length_select)
      qed
    qed
    have al: "\<forall>lid k v. map_of (c_layers ?c) lid = Some (k, v) \<longrightarrow>
        (\<exists>k' v'. map_of (c_layers c1) lid = Some (k', v') \<and>
           (\<forall>b<bs. A ! b \<longrightarrow> k' ! rank A b = k ! rank P b \<and> v' ! rank A b = v ! rank P b))"
    proof (intro allI impI)
      fix lid k v assume m: "map_of (c_layers ?c) lid = Some (k, v)"
      then have "(lid, (k, v)) \<in> set (c_layers ?c)" by (rule map_of_SomeD)
      with rows have lk: "length k = length (filter id P)" "length v = length (filter id P)"
        by (auto simp: cache_rows_def)
      have m1: "map_of (c_layers c1) lid = Some (select ?rm k, select ?rm v)"
        using m by (simp add: c1_def map_of_map_entries)
      have "\<forall>b<bs. A ! b \<longrightarrow> select ?rm k ! rank A b = k ! rank P b \<and> select ?rm v ! rank A b = v ! rank P b"
        using select_select_nth[OF lAP lk(1) sub] select_select_nth[OF lAP lk(2) sub] lA by simp
      with m1 show "\<exists>k' v'. map_of (c_layers c1) lid = Some (k', v') \<and>
           (\<forall>b<bs. A ! b \<longrightarrow> k' ! rank A b = k ! rank P b \<and> v' ! rank A b = v ! rank P b)"
        by blast
    qed
    have "c_slen c1 = c_slen ?c" by (simp add: c1_def)
    moreover have "c_layers c1 =
        map (\<lambda>(lid, (k, v)). (lid, (select (select P A) k, select (select P A) v))) (c_layers ?c)"
      by (simp add: c1_def)
    ultimately show ?thesis using pc keys cr al by blast
  qed
qed

lemma generate_step_fwd:
  assumes "generate_step M src_enc src_len tgt max_lengths gml T rng st = Inr st'"
  shows "\<exists>c1 tensor c2. prepare_cache st = Inr c1 \<and>
     fwd M (map (select (active st)) (take (cur_len st) (generated st)))
          (select (active st) (gen_len st)) True
          (Some (select (active st) src_enc, select (active st) src_len))
          (Some (map (\<lambda>t. replicate (length (filter id (active st))) t) [0..<cur_len st]))
          (Some (replicate (cur_len st) (replicate (length (filter id (active st))) tgt)))
          True (Some c1) = Inr (tensor, Some c2) \<and>
     gcache st' = c2 \<and> previous_unfinished_mask st' = active st"
proof -
  from assms obtain c1 where pc: "prepare_cache st = Inr c1"
    by (auto simp: generate_step_def Let_def ebind_Inr_iff)
  with assms obtain tensor cache2 where
    f: "fwd M (map (select (active st)) (take (cur_len st) (generated st)))
          (select (active st) (gen_len st)) True
          (Some (select (active st) src_enc, select (active st) src_len))
          (Some (map (\<lambda>t. replicate (length (filter id (active st))) t) [0..<cur_len st]))
          (Some (replicate (cur_len st) (replicate (length (filter id (active st))) tgt)))
          True (Some c1) = Inr (tensor, cache2)"
    by (auto simp: generate_step_def Let_def ebind_Inr_iff active_def)
  from fwd_Inr[OF f] obtain c2 where c2: "cache2 = Some c2" by (elim exE conjE)
  have "gcache st' = c2 \<and> previous_unfinished_mask st' = active st"
    using assms pc f c2
    by (auto simp: generate_step_def Let_def ebind_def active_def split: if_splits sum.splits)
  then show ?thesis using pc f c2 by blast
qed

lemma gen_step_unfinished_mono:
  assumes ok: "gen_ok M (length src_len) gml st"
    and step: "generate_step M src_enc src_len tgt max_lengths gml T rng st = Inr st'"
    and b: "b < length src_len" and z: "unfinished_sents st ! b = 0"
  shows "unfinished_sents st' ! b = 0"
proof -
  let ?U = "unfinished_sents st"
  let ?A = "map (\<lambda>u. u \<noteq> 0) ?U"
  from ok have lU: "length ?U = length src_len" by (simp add: gen_ok_def)
  from generate_step_Inr[OF step] obtain ws vals where
    lw: "length ws = length (filter id ?A)" and lm: "length max_lengths = length src_len"
    and u: "unfinished_sents st' = scatter ?A
                  (map (\<lambda>(u, (w, ml)). u * (if w \<noteq> eos_index M then 1 else 0)
                                  * (if ml \<noteq> cur_len st + 1 then 1 else 0))
                     (zip (select ?A ?U) (zip ws (select ?A max_lengths)))) ?U"
    by auto
  have "length (select ?A ?U) = length (filter id ?A)" "length (select ?A max_lengths) = length (filter id ?A)"
    using lU lm by (simp_all add: length_select)
  then show ?thesis
    unfolding u using lU lw b z by (subst nth_scatter) simp_all
qed

lemma cache_rows_empty: "cache_rows empty_cache n"
  by (simp add: cache_rows_def empty_cache_def)

lemma gen_step_masks:
  assumes ok: "gen_ok M (length src_len) gml st" and mk: "masks_ok M (length src_len) st"
    and step: "generate_step M src_enc src_len tgt max_lengths gml T rng st = Inr st'"
  shows "masks_ok M (length src_len) st'"
proof -
  let ?bs = "length src_len" and ?A = "active st"
  from ok have lU: "length (unfinished_sents st) = ?bs" and lL: "length (gen_len st) = ?bs"
    by (simp_all add: gen_ok_def)
  have lA: "length ?A = ?bs" using lU by (simp add: active_def)
  from generate_step_fwd[OF step] obtain c1 tensor c2 where
    pc: "prepare_cache st = Inr c1"
    and f: "fwd M (map (select ?A) (take (cur_len st) (generated st)))
          (select ?A (gen_len st)) True
          (Some (select ?A src_enc, select ?A src_len))
          (Some (map (\<lambda>t. replicate (length (filter id ?A)) t) [0..<cur_len st]))
          (Some (replicate (cur_len st) (replicate (length (filter id ?A)) tgt)))
          True (Some c1) = Inr (tensor, Some c2)"
    and g: "gcache st' = c2" and p: "previous_unfinished_mask st' = ?A"
    by blast
  from prepare_cache_ok[OF ok mk] pc have
    k1: "map fst (c_layers c1) = map fst (c_layers (gcache st))"
    and r1: "cache_rows c1 (length (filter id ?A))"
    by auto
  have ks1: "fst ` set (c_layers c1) \<subseteq> layer_ids M"
    using mk k1 by (metis masks_ok_def set_map)
  have ln: "length (select ?A (gen_len st)) = length (filter id ?A)"
    using lA lL by (simp add: length_select)
  from fwd_Inr[OF f] have
    s: "\<forall>i<n_layers M. cached c2 (self_id M i) (length (filter id ?A)) (c_slen c2)"
    and e: "\<forall>i<n_layers M. cached c2 (enc_id M i) (length (filter id ?A)) (tdim (select ?A src_enc))"
    and k2: "fst ` set (c_layers c2) = fst ` set (c_layers c1) \<union> self_id M ` {..<n_layers M} \<union>
        enc_id M ` {..<n_layers M}"
    and d2: "distinct (map fst (c_layers c1)) \<longrightarrow> distinct (map fst (c_layers c2))"
    by (auto simp: ln)
  have dist: "distinct (map fst (c_layers c2))" using d2 r1 by (simp add: cache_rows_def)
  have ks2: "fst ` set (c_layers c2) \<subseteq> layer_ids M"
    using k2 ks1 by (auto simp: layer_ids_def)
  have rows2: "\<forall>(lid, (k, v))\<in>set (c_layers c2).
      length k = length (filter id ?A) \<and> length v = length (filter id ?A)"
  proof (clarify)
    fix lid k v assume i: "(lid, (k, v)) \<in> set (c_layers c2)"
    then have m: "map_of (c_layers c2) lid = Some (k, v)" using dist by simp
    from i ks2 have "lid \<in> layer_ids M" by force
    then obtain t where "cached c2 lid (length (filter id ?A)) t"
      using s e by (auto simp: layer_ids_def)
    with m show "length k = length (filter id ?A) \<and> length v = length (filter id ?A)"
      by (auto simp: cached_def rect_def)
  qed
  have "\<forall>b<?bs. unfinished_sents st' ! b \<noteq> 0 \<longrightarrow> ?A ! b"
  proof (intro allI impI)
    fix b assume b: "b < ?bs" and nz: "unfinished_sents st' ! b \<noteq> 0"
    have "unfinished_sents st ! b \<noteq> 0"
      using gen_step_unfinished_mono[OF ok step b] nz by blast
    then show "?A ! b" using b lU by (simp add: active_def)
  qed
  then show ?thesis
    unfolding masks_ok_def using lA p g dist rows2 ks2 by (simp add: cache_rows_def)
qed

lemma gen_reach_inv:
  assumes "gen_reach M src_enc src_len tgt max_lengths gml T rng st"
  shows "gen_ok M (length src_len) gml st \<and> masks_ok M (length src_len) st"
  using assms
proof (induction rule: gen_reach.induct)
  case (start generated0)
  have "masks_ok M (length src_len) \<lparr>generated = generated0, gen_len = replicate (length src_len) 1,
        unfinished_sents = replicate (length src_len) 1, gcache = empty_cache,
        previous_unfinished_mask = replicate (length src_len) True, cur_len = 1\<rparr>"
    by (simp add: masks_ok_def cache_rows_empty) (simp add: empty_cache_def)
  then show ?case using gen_ok_init[OF start] by simp
next
  case (step st st')
  then show ?case using gen_step_ok gen_step_masks by blast
qed

text \<open>
  Claim C4. In every loop state of a call of \<^verbatim>\<open>generate\<close>, the cache that the iteration
  hands to \<^verbatim>\<open>fwd\<close> is obtained without error; when the active mask differs from the previous
  one, every entry's key and value tensors are the old ones indexed by the new mask
  restricted to the previously active rows; every tensor then has exactly one batch row per
  active sentence, and the row of an active sentence \<open>b\<close>, which sat at the rank of \<open>b\<close> in
  the previous active set, sits at the rank of \<open>b\<close> in the new active set. This cache is the
  one the next pass of \<^verbatim>\<open>fwd\<close> receives.
\<close>

theorem cache_refiltered:
  assumes "gen_reach M src_enc src_len tgt max_lengths gml T rng st"
  shows "\<exists>c1. prepare_cache st = Inr c1 \<and>
     (active st \<noteq> previous_unfinished_mask st \<longrightarrow> c_layers c1 =
        map (\<lambda>(lid, (k, v)).
               (lid, (select (select (previous_unfinished_mask st) (active st)) k,
                      select (select (previous_unfinished_mask st) (active st)) v)))
          (c_layers (gcache st))) \<and>
     (\<forall>(lid, (k', v'))\<in>set (c_layers c1).
        length k' = length (filter id (active st)) \<and>
        length v' = length (filter id (active st))) \<and>
     (\<forall>lid k v. map_of (c_layers (gcache st)) lid = Some (k, v) \<longrightarrow>
        (\<exists>k' v'. map_of (c_layers c1) lid = Some (k', v') \<and>
           (\<forall>b<length src_len. active st ! b \<longrightarrow>
              k' ! rank (active st) b = k ! rank (previous_unfinished_mask st) b \<and>
              v' ! rank (active st) b = v ! rank (previous_unfinished_mask st) b))) \<and>
     (\<forall>st'. generate_step M src_enc src_len tgt max_lengths gml T rng st = Inr st' \<longrightarrow>
        (\<exists>tensor c2.
           fwd M (map (select (active st)) (take (cur_len st) (generated st)))
             (select (active st) (gen_len st)) True
             (Some (select (active st) src_enc, select (active st) src_len))
             (Some (map (\<lambda>t. replicate (length (filter id (active st))) t) [0..<cur_len st]))
             (Some (replicate (cur_len st) (replicate (length (filter id (active st))) tgt)))
             True (Some c1) = Inr (tensor, Some c2) \<and> gcache st' = c2))"
proof -
  from gen_reach_inv[OF assms] have ok: "gen_ok M (length src_len) gml st"
    and mk: "masks_ok M (length src_len) st" by simp_all
  from prepare_cache_ok[OF ok mk] obtain c1 where
    pc: "prepare_cache st = Inr c1"
    and cr: "cache_rows c1 (length (filter id (active st)))"
    and rf: "active st \<noteq> previous_unfinished_mask st \<longrightarrow> c_layers c1 =
        map (\<lambda>(lid, (k, v)).
               (lid, (select (select (previous_unfinished_mask st) (active st)) k,
                      select (select (previous_unfinished_mask st) (active st)) v)))
          (c_layers (gcache st))"
    and al: "\<forall>lid k v. map_of (c_layers (gcache st)) lid = Some (k, v) \<longrightarrow>
        (\<exists>k' v'. map_of (c_layers c1) lid = Some (k', v') \<and>
           (\<forall>b<length src_len. active st ! b \<longrightarrow>
              k' ! rank (active st) b = k ! rank (previous_unfinished_mask st) b \<and>
              v' ! rank (active st) b = v ! rank (previous_unfinished_mask st) b))"
    by (elim exE conjE) (rule that)
  have rows: "\<forall>(lid, (k', v'))\<in>set (c_layers c1).
        length k' = length (filter id (active st)) \<and> length v' = length (filter id (active st))"
    using cr by (simp add: cache_rows_def)
  have use: "\<forall>st'. generate_step M src_enc src_len tgt max_lengths gml T rng st = Inr st' \<longrightarrow>
        (\<exists>tensor c2.
           fwd M (map (select (active st)) (take (cur_len st) (generated st)))
             (select (active st) (gen_len st)) True
             (Some (select (active st) src_enc, select (active st) src_len))
             (Some (map (\<lambda>t. replicate (length (filter id (active st))) t) [0..<cur_len st]))
             (Some (replicate (cur_len st) (replicate (length (filter id (active st))) tgt)))
             True (Some c1) = Inr (tensor, Some c2) \<and> gcache st' = c2)"
  proof (intro allI impI)
    fix st' assume "generate_step M src_enc src_len tgt max_lengths gml T rng st = Inr st'"
    from generate_step_fwd[OF this] pc show "\<exists>tensor c2.
           fwd M (map (select (active st)) (take (cur_len st) (generated st)))
             (select (active st) (gen_len st)) True
             (Some (select (active st) src_enc, select (active st) src_len))
             (Some (map (\<lambda>t. replicate (length (filter id (active st))) t) [0..<cur_len st]))
             (Some (replicate (cur_len st) (replicate (length (filter id (active st))) tgt)))
             True (Some c1) = Inr (tensor, Some c2) \<and> gcache st' = c2"
      by auto
  qed
  show ?thesis using pc rf rows al use by blast
qed

lemma toy_reach1:
  "gen_reach toy [[7, 8, 9], [4, 5, 6]] [3, 3] 1 [4, 4] 4 (Some 1) toy_rng toy_state1"
proof -
  have i: "initial_generated toy 4 (length [3::nat, 3]) = Inr [[1, 1], [2, 2], [2, 2], [2, 2]]"
    by (simp add: initial_generated_def toy_def eval_nat_numeral)
  have s: "generate_step toy [[7, 8, 9], [4, 5, 6]] [3, 3] 1 [4, 4] 4 (Some 1) toy_rng
      \<lparr>generated = [[1, 1], [2, 2], [2, 2], [2, 2]], gen_len = replicate (length [3::nat, 3]) 1,
        unfinished_sents = replicate (length [3::nat, 3]) 1, gcache = empty_cache,
        previous_unfinished_mask = replicate (length [3::nat, 3]) True, cur_len = 1\<rparr>
      = Inr toy_state1"
    by (simp add: gen_eval fwd_eval toy_state1_def toy_rng_def)
  show ?thesis
    by (rule gen_reach.step[OF gen_reach.start[OF i] _ s]) simp
qed

text \<open>
  After the first iteration of the sampled run the active mask has changed from both
  sentences to the first one: the cache is cut down to the row of the first sentence.
\<close>

theorem cache_refiltered_witness:
  "gen_reach toy [[7, 8, 9], [4, 5, 6]] [3, 3] 1 [4, 4] 4 (Some 1) toy_rng toy_state1 \<and>
   active toy_state1 = [True, False] \<and> previous_unfinished_mask toy_state1 = [True, True] \<and>
   prepare_cache toy_state1 =
     Inr \<lparr>c_slen = 1, c_layers = [(0, ([[1]], [[1]])), (1, ([[7, 8, 9]], [[7, 8, 9]]))]\<rparr>"
proof -
  from cache_refiltered[OF toy_reach1] obtain c1 where
    pc: "prepare_cache toy_state1 = Inr c1"
    and rf: "active toy_state1 \<noteq> previous_unfinished_mask toy_state1 \<longrightarrow> c_layers c1 =
        map (\<lambda>(lid, (k, v)).
               (lid, (select (select (previous_unfinished_mask toy_state1) (active toy_state1)) k,
                      select (select (previous_unfinished_mask toy_state1) (active toy_state1)) v)))
          (c_layers (gcache toy_state1))"
    by (elim exE conjE)
  have a: "active toy_state1 = [True, False]" "previous_unfinished_mask toy_state1 = [True, True]"
    by (simp_all add: active_def toy_state1_def)
  have "c_layers c1 = [(0, ([[1]], [[1]])), (1, ([[7, 8, 9]], [[7, 8, 9]]))]"
    using rf by (simp add: a) (simp add: toy_state1_def)
  moreover have "c_slen c1 = 1"
    using pc by (auto simp: prepare_cache_def restrict_cache_def ebind_def Let_def toy_state1_def select_def
        split: if_splits)
  ultimately have "c1 = \<lparr>c_slen = 1, c_layers = [(0, ([[1]], [[1]])), (1, ([[7, 8, 9]], [[7, 8, 9]]))]\<rparr>"
    by (cases c1) simp
  then show ?thesis using pc a toy_reach1 by simp
qed

end
